theory Spec2Isabelle
  imports Main "HOL-Library.Word" "HOL-Library.Multiset"
begin

unbundle bit_operations_syntax

section \<open>Shared model: audio blocks and the block pool\<close>

text \<open>
  An \<open>audio_block_t *\<close> is modelled by the index of the block it points to; the null
  pointer is \<open>None\<close>.
\<close>

type_synonym block = nat

text \<open>
  Modelled from the spec: the macro \<open>AUDIO_BLOCK_SAMPLES\<close> is defined in a header that
  is not under src/; the spec gives the block length as 128 samples.
\<close>

definition AUDIO_BLOCK_SAMPLES :: nat where
  "AUDIO_BLOCK_SAMPLES = 128"

text \<open>
  Modelled from the spec: the Block Pool (\<open>AudioStream::allocate\<close> and
  \<open>AudioStream::release\<close>) is an external collaborator that is not under src/. The spec
  gives its interface as \<open>allocate() \<rightarrow> block | null\<close> and \<open>release(block)\<close>. The pool is
  modelled by its free list: \<open>allocate\<close> takes the first free block and answers null
  when there is none, \<open>release\<close> hands a block back. Every call of \<open>release\<close> adds one
  entry, so the free list also records how often each block has been released.
\<close>

type_synonym pool = "block list"

definition allocate :: "pool \<Rightarrow> block option \<times> pool" where
  "allocate p = (case p of [] \<Rightarrow> (None, []) | b # bs \<Rightarrow> (Some b, bs))"

definition release :: "block \<Rightarrow> pool \<Rightarrow> pool" where
  "release b p = b # p"

section \<open>AudioOutputTDM_Slave.cpp\<close>

text \<open>
  The static members and file-scope arrays of \<open>AudioOutputTDM_Slave.cpp\<close>. A C array is
  a function from the index to the element: \<open>block_input\<close> has 16 entries, \<open>zeros\<close> has
  \<open>AUDIO_BLOCK_SAMPLES/2\<close> words and \<open>tdm_tx_buffer\<close> has \<open>AUDIO_BLOCK_SAMPLES*16\<close>
  words. \<open>free_blocks\<close> is the block pool the object releases into.
\<close>

record tdm =
  block_input :: "nat \<Rightarrow> block option"
  update_responsibility :: bool
  zeros :: "nat \<Rightarrow> 32 word"
  tdm_tx_buffer :: "nat \<Rightarrow> 32 word"
  free_blocks :: pool

text \<open>
  A \<open>for (i = 0; i < n; i++)\<close> loop is a primitive recursion on the number of iterations
  done: the state after \<open>Suc i\<close> iterations is the body at index \<open>i\<close> applied to the state
  after \<open>i\<close> iterations.
\<close>

primrec begin_slots :: "nat \<Rightarrow> (nat \<Rightarrow> block option) \<Rightarrow> (nat \<Rightarrow> block option)" where
  "begin_slots 0 bi = bi"
| "begin_slots (Suc i) bi = (begin_slots i bi)(i := None)"

primrec memset_words :: "nat \<Rightarrow> (nat \<Rightarrow> 32 word) \<Rightarrow> (nat \<Rightarrow> 32 word)" where
  "memset_words 0 a = a"
| "memset_words (Suc i) a = (memset_words i a)(i := 0)"

text \<open>
  \<open>AudioOutputTDM_Slave::begin\<close>, without the hardware registers: the slots are set to
  null, \<open>zeros\<close> and \<open>tdm_tx_buffer\<close> are cleared, and \<open>update_responsibility\<close> takes
  the answer \<open>us\<close> of \<open>update_setup()\<close>.
\<close>

definition tdm_begin :: "bool \<Rightarrow> tdm \<Rightarrow> tdm" where
  "tdm_begin us s =
     s\<lparr>block_input := begin_slots 16 (block_input s),
       zeros := memset_words (AUDIO_BLOCK_SAMPLES div 2) (zeros s),
       tdm_tx_buffer := memset_words (AUDIO_BLOCK_SAMPLES * 16) (tdm_tx_buffer s),
       update_responsibility := us\<rparr>"

text \<open>
  \<open>memcpy_tdm_tx\<close>: iteration \<open>i\<close> reads the source words \<open>2*i\<close> and \<open>2*i+1\<close> of both
  channels (the pointers \<open>src1\<close>, \<open>src2\<close> have advanced by \<open>2*i\<close>) and writes four words
  from \<open>dest + 32*i\<close> (the pointer \<open>dest\<close> has advanced by \<open>32*i\<close>).
\<close>

definition tdm_out1 :: "32 word \<Rightarrow> 32 word \<Rightarrow> 32 word" where
  "tdm_out1 in1 in2 = push_bit 16 in1 OR (in2 AND 0xFFFF)"

definition tdm_out2 :: "32 word \<Rightarrow> 32 word \<Rightarrow> 32 word" where
  "tdm_out2 in1 in2 = (in1 AND 0xFFFF0000) OR drop_bit 16 in2"

primrec memcpy_tdm_tx_loop ::
  "nat \<Rightarrow> nat \<Rightarrow> (nat \<Rightarrow> 32 word) \<Rightarrow> (nat \<Rightarrow> 32 word) \<Rightarrow> (nat \<Rightarrow> 32 word) \<Rightarrow> (nat \<Rightarrow> 32 word)" where
  "memcpy_tdm_tx_loop 0 dest src1 src2 buf = buf"
| "memcpy_tdm_tx_loop (Suc i) dest src1 src2 buf =
     (let buf = memcpy_tdm_tx_loop i dest src1 src2 buf;
          in1 = src1 (2 * i);
          in2 = src2 (2 * i);
          buf = buf(dest + 32 * i := tdm_out1 in1 in2);
          buf = buf(dest + 32 * i + 8 := tdm_out2 in1 in2);
          in1 = src1 (2 * i + 1);
          in2 = src2 (2 * i + 1);
          buf = buf(dest + 32 * i + 16 := tdm_out1 in1 in2);
          buf = buf(dest + 32 * i + 24 := tdm_out2 in1 in2)
      in buf)"

definition memcpy_tdm_tx ::
  "nat \<Rightarrow> (nat \<Rightarrow> 32 word) \<Rightarrow> (nat \<Rightarrow> 32 word) \<Rightarrow> (nat \<Rightarrow> 32 word) \<Rightarrow> (nat \<Rightarrow> 32 word)" where
  "memcpy_tdm_tx dest src1 src2 buf =
     memcpy_tdm_tx_loop (AUDIO_BLOCK_SAMPLES div 4) dest src1 src2 buf"

text \<open>
  The source of channel \<open>i\<close> in the ISR: the data of the block in the slot, read as 32-bit
  words (\<open>mem b k\<close> is word \<open>k\<close> of block \<open>b\<close>), or \<open>zeros\<close> when the slot is null.
\<close>

definition isr_src :: "(block \<Rightarrow> nat \<Rightarrow> 32 word) \<Rightarrow> tdm \<Rightarrow> nat \<Rightarrow> (nat \<Rightarrow> 32 word)" where
  "isr_src mem s i = (case block_input s i of Some b \<Rightarrow> mem b | None \<Rightarrow> zeros s)"

text \<open>The loop \<open>for (i=0; i < 16; i += 2)\<close> of the ISR; iteration \<open>p\<close> has \<open>i = 2*p\<close>.\<close>

primrec isr_fill ::
  "nat \<Rightarrow> nat \<Rightarrow> (block \<Rightarrow> nat \<Rightarrow> 32 word) \<Rightarrow> tdm \<Rightarrow> (nat \<Rightarrow> 32 word) \<Rightarrow> (nat \<Rightarrow> 32 word)" where
  "isr_fill 0 dest mem s buf = buf"
| "isr_fill (Suc p) dest mem s buf =
     memcpy_tdm_tx (dest + p) (isr_src mem s (2 * p)) (isr_src mem s (2 * p + 1))
       (isr_fill p dest mem s buf)"

text \<open>The loop of the ISR that releases the blocks.\<close>

primrec isr_release :: "nat \<Rightarrow> tdm \<Rightarrow> tdm" where
  "isr_release 0 s = s"
| "isr_release (Suc i) s =
     (let s = isr_release i s
      in case block_input s i of
           Some b \<Rightarrow> s\<lparr>free_blocks := release b (free_blocks s),
                       block_input := (block_input s)(i := None)\<rparr>
         | None \<Rightarrow> s)"

text \<open>
  \<open>AudioOutputTDM_Slave::update\<close>. \<open>rcv i\<close> is the answer of \<open>receiveReadOnly(i)\<close>, the
  block handed over by the upstream of channel \<open>i\<close>, or null.
\<close>

primrec update_take ::
  "nat \<Rightarrow> (nat \<Rightarrow> block option) \<Rightarrow> (nat \<Rightarrow> block option) \<times> tdm \<Rightarrow> (nat \<Rightarrow> block option) \<times> tdm" where
  "update_take 0 rcv ps = ps"
| "update_take (Suc i) rcv ps =
     (let (prev, s) = update_take i rcv ps
      in (prev(i := block_input s i), s\<lparr>block_input := (block_input s)(i := rcv i)\<rparr>))"

primrec update_release :: "nat \<Rightarrow> (nat \<Rightarrow> block option) \<Rightarrow> tdm \<Rightarrow> tdm" where
  "update_release 0 prev s = s"
| "update_release (Suc i) prev s =
     (let s = update_release i prev s
      in case prev i of
           Some b \<Rightarrow> s\<lparr>free_blocks := release b (free_blocks s)\<rparr>
         | None \<Rightarrow> s)"

definition update :: "(nat \<Rightarrow> block option) \<Rightarrow> tdm \<Rightarrow> tdm" where
  "update rcv s =
     (let (prev, s) = update_take 16 rcv (\<lambda>i. None, s)
      in update_release 16 prev s)"

text \<open>
  \<open>AudioOutputTDM_Slave::isr\<close>. \<open>saddr\<close> is the DMA source address as a byte offset into
  \<open>tdm_tx_buffer\<close>; the result \<open>dest\<close> is a word offset into it.

  Modelled from the spec: \<open>AudioStream::update_all\<close> is not under src/. The spec
  describes it as one cooperative pass over the audio graph that, for each edge, pulls
  one block from upstream, releases the previous occupant of the destination slot and
  stores the new one; for this object that pass is one call of \<open>update\<close>.
\<close>

definition isr_dest :: "nat \<Rightarrow> nat" where
  "isr_dest saddr =
     (if saddr < (AUDIO_BLOCK_SAMPLES * 16 * 4) div 2 then AUDIO_BLOCK_SAMPLES * 8 else 0)"

definition isr_update_all :: "(nat \<Rightarrow> block option) \<Rightarrow> tdm \<Rightarrow> tdm" where
  "isr_update_all rcv s = (if update_responsibility s then update rcv s else s)"

definition isr ::
  "nat \<Rightarrow> (nat \<Rightarrow> block option) \<Rightarrow> (block \<Rightarrow> nat \<Rightarrow> 32 word) \<Rightarrow> tdm \<Rightarrow> tdm" where
  "isr saddr rcv mem s =
     (let dest = isr_dest saddr;
          s = isr_update_all rcv s;
          s = s\<lparr>tdm_tx_buffer := isr_fill 8 dest mem s (tdm_tx_buffer s)\<rparr>
      in isr_release 16 s)"

text \<open>The blocks held in the slots \<open>0, \<dots>, n-1\<close> of a slot array, in slot order.\<close>

primrec slot_blocks :: "(nat \<Rightarrow> block option) \<Rightarrow> nat \<Rightarrow> block list" where
  "slot_blocks f 0 = []"
| "slot_blocks f (Suc i) =
     (case f i of Some b \<Rightarrow> slot_blocks f i @ [b] | None \<Rightarrow> slot_blocks f i)"

text \<open>
  One full update+ISR cycle: exactly one update pass, run by the ISR itself when the
  object has the update responsibility and before the ISR otherwise, then the fill and
  the release loop of the ISR. A cycle is described by what the upstream hands over
  (\<open>rcv\<close>), where the DMA stands (\<open>saddr\<close>) and the contents of the blocks (\<open>mem\<close>).
\<close>

type_synonym tdm_env = "(nat \<Rightarrow> block option) \<times> nat \<times> (block \<Rightarrow> nat \<Rightarrow> 32 word)"

definition tdm_cycle :: "tdm_env \<Rightarrow> tdm \<Rightarrow> tdm" where
  "tdm_cycle e s =
     (case e of (rcv, saddr, mem) \<Rightarrow>
        if update_responsibility s then isr saddr rcv mem s
        else isr saddr (\<lambda>i. None) mem (update rcv s))"

primrec tdm_cycles :: "tdm_env list \<Rightarrow> tdm \<Rightarrow> tdm" where
  "tdm_cycles [] s = s"
| "tdm_cycles (e # es) s = tdm_cycles es (tdm_cycle e s)"

text \<open>The blocks deposited into the slots over a sequence of cycles.\<close>

definition deposited :: "tdm_env list \<Rightarrow> block list" where
  "deposited es = concat (map (\<lambda>e. slot_blocks (fst e) 16) es)"


text \<open>A state before \<open>begin\<close>, with an empty buffer and an empty pool.\<close>

definition tdm0 :: tdm where
  "tdm0 = \<lparr>block_input = \<lambda>i. None, update_responsibility = False, zeros = \<lambda>k. 0,
           tdm_tx_buffer = \<lambda>k. 0, free_blocks = []\<rparr>"

text \<open>
  Example data: a state in which slot 5 holds block 9, an upstream that hands block 7
  to channel 3 and nothing to the others, an upstream that hands block \<open>i\<close> to every
  channel \<open>i\<close>, and block contents in which every word of block 6 is \<open>0x11112222\<close> and
  every word of the other blocks is \<open>0x33334444\<close>.
\<close>

definition tdm_occupied :: tdm where
  "tdm_occupied = tdm0\<lparr>block_input := (\<lambda>i. if i = 5 then Some 9 else None)\<rparr>"

definition rcv_one :: "nat \<Rightarrow> block option" where
  "rcv_one = (\<lambda>i. if i = 3 then Some 7 else None)"

definition rcv_all :: "nat \<Rightarrow> block option" where
  "rcv_all = (\<lambda>i. Some i)"

definition mem_example :: "block \<Rightarrow> nat \<Rightarrow> 32 word" where
  "mem_example = (\<lambda>b k. if b = 6 then 0x11112222 else 0x33334444)"

section \<open>patches/usb_audio.cpp\<close>

text \<open>
  The static members of \<open>AudioInputUSB\<close> and \<open>AudioOutputUSB\<close> and the file-scope
  variables of \<open>usb_audio.cpp\<close>, with the pool and the block contents they work on.
  \<^item> \<open>incoming_count\<close> (\<open>uint16_t\<close>) and \<open>offset_1st\<close> (\<open>uint16_t\<close>) are natural
    numbers; the stores into them are written with their truncation.
  \<^item> The counters and the accumulator are 32-bit words, \<open>receive_flag\<close> is an 8-bit
    word.
  \<^item> \<open>tx_count\<close> is the \<open>static uint32_t count\<close> of \<open>usb_audio_transmit_callback\<close>.
  \<^item> \<open>usb_audio_transmit_buffer\<close> is the transmit buffer as the array of 32-bit words
    that \<open>copy_from_buffers_4ch\<close> writes through its cast: word \<open>j\<close> is the bytes
    \<open>4*j, \<dots>, 4*j+3\<close>.
  \<^item> \<open>block_data b k\<close> is the sample \<open>data[k]\<close> of block \<open>b\<close>.
  \<^item> \<open>transmitted c\<close> collects the samples handed to the downstream of channel \<open>c\<close>.
    Modelled from the spec: \<open>AudioStream::transmit(block, channel)\<close> is not under src/;
    the spec says it passes the block on without taking ownership.
\<close>

record usb =
  input_update_responsibility :: bool
  incoming_left :: "block option"
  incoming_right :: "block option"
  incoming_left2 :: "block option"
  incoming_right2 :: "block option"
  ready_left :: "block option"
  ready_right :: "block option"
  ready_left2 :: "block option"
  ready_right2 :: "block option"
  incoming_count :: nat
  receive_flag :: "8 word"
  feedback_accumulator :: "32 word"
  usb_audio_underrun_count :: "32 word"
  usb_audio_overrun_count :: "32 word"
  output_update_responsibility :: bool
  left_1st :: "block option"
  left_2nd :: "block option"
  right_1st :: "block option"
  right_2nd :: "block option"
  left2_1st :: "block option"
  left2_2nd :: "block option"
  right2_1st :: "block option"
  right2_2nd :: "block option"
  offset_1st :: nat
  tx_count :: "32 word"
  usb_audio_transmit_buffer :: "nat \<Rightarrow> 32 word"
  pool_free :: pool
  block_data :: "block \<Rightarrow> nat \<Rightarrow> 16 word"
  transmitted :: "nat \<Rightarrow> 16 word list"

text \<open>
  Subtraction of \<open>unsigned int\<close> values (32 bits on this target): it wraps around
  below zero.
\<close>

definition u32_sub :: "nat \<Rightarrow> nat \<Rightarrow> nat" where
  "u32_sub a b = (if b \<le> a then a - b else 2 ^ 32 + a - b)"

text \<open>
  \<open>usb_audio_configure\<close>, without the endpoint set-up: the counters are cleared and the
  accumulator is seeded with \<open>44.1 * 2^24\<close>.
\<close>

definition usb_audio_configure :: "usb \<Rightarrow> usb" where
  "usb_audio_configure s =
     s\<lparr>usb_audio_underrun_count := 0,
       usb_audio_overrun_count := 0,
       feedback_accumulator := 739875226\<rparr>"

subsection \<open>The receive path\<close>

definition AudioInputUSB_begin :: "usb \<Rightarrow> usb" where
  "AudioInputUSB_begin s =
     s\<lparr>incoming_count := 0,
       incoming_left := None, incoming_right := None,
       incoming_left2 := None, incoming_right2 := None,
       ready_left := None, ready_right := None,
       ready_left2 := None, ready_right2 := None,
       receive_flag := 0,
       input_update_responsibility := False\<rparr>"

text \<open>
  \<open>copy_to_buffers_4ch\<close>: \<open>src\<close> is the receive buffer read as 32-bit words and \<open>so\<close>
  the word offset of the pointer \<open>src\<close> into it; the four destinations are the data of
  the blocks \<open>left1 \<dots> right2\<close> from sample \<open>c\<close> on. Iteration \<open>i\<close> reads the words
  \<open>so + 2*i\<close> and \<open>so + 2*i + 1\<close> and writes sample \<open>c + i\<close> of each block.
\<close>

primrec copy_to_buffers_4ch ::
  "nat \<Rightarrow> (nat \<Rightarrow> 32 word) \<Rightarrow> nat \<Rightarrow> block \<Rightarrow> block \<Rightarrow> block \<Rightarrow> block \<Rightarrow> nat
     \<Rightarrow> (block \<Rightarrow> nat \<Rightarrow> 16 word) \<Rightarrow> (block \<Rightarrow> nat \<Rightarrow> 16 word)" where
  "copy_to_buffers_4ch 0 src so left1 right1 left2 right2 c d = d"
| "copy_to_buffers_4ch (Suc i) src so left1 right1 left2 right2 c d =
     (let d = copy_to_buffers_4ch i src so left1 right1 left2 right2 c d;
          n1 = src (so + 2 * i);
          n2 = src (so + 2 * i + 1);
          d = d(left1 := (d left1)(c + i := ucast (n1 AND 0xFFFF)));
          d = d(right1 := (d right1)(c + i := ucast (drop_bit 16 n1)));
          d = d(left2 := (d left2)(c + i := ucast (n2 AND 0xFFFF)));
          d = d(right2 := (d right2)(c + i := ucast (drop_bit 16 n2)))
      in d)"

text \<open>
  The first allocation chain of \<open>usb_audio_receive_callback\<close>: a null incoming slot is
  filled with a fresh block. \<open>Inl\<close> is the early \<open>return\<close> with the state it leaves,
  \<open>Inr\<close> carries the local pointer on.
\<close>

definition rx_alloc_left :: "usb \<Rightarrow> usb + block \<times> usb" where
  "rx_alloc_left s =
     (case incoming_left s of
        Some left1 \<Rightarrow> Inr (left1, s)
      | None \<Rightarrow>
          (case allocate (pool_free s) of
             (None, p) \<Rightarrow> Inl (s\<lparr>pool_free := p\<rparr>)
           | (Some left1, p) \<Rightarrow> Inr (left1, s\<lparr>pool_free := p, incoming_left := Some left1\<rparr>)))"

definition rx_alloc_right :: "usb \<Rightarrow> usb + block \<times> usb" where
  "rx_alloc_right s =
     (case incoming_right s of
        Some right1 \<Rightarrow> Inr (right1, s)
      | None \<Rightarrow>
          (case allocate (pool_free s) of
             (None, p) \<Rightarrow> Inl (s\<lparr>pool_free := p\<rparr>)
           | (Some right1, p) \<Rightarrow> Inr (right1, s\<lparr>pool_free := p, incoming_right := Some right1\<rparr>)))"

definition rx_alloc_left2 :: "usb \<Rightarrow> usb + block \<times> usb" where
  "rx_alloc_left2 s =
     (case incoming_left2 s of
        Some left2 \<Rightarrow> Inr (left2, s)
      | None \<Rightarrow>
          (case allocate (pool_free s) of
             (None, p) \<Rightarrow> Inl (s\<lparr>pool_free := p\<rparr>)
           | (Some left2, p) \<Rightarrow> Inr (left2, s\<lparr>pool_free := p, incoming_left2 := Some left2\<rparr>)))"

definition rx_alloc_right2 :: "usb \<Rightarrow> usb + block \<times> usb" where
  "rx_alloc_right2 s =
     (case incoming_right2 s of
        Some right2 \<Rightarrow> Inr (right2, s)
      | None \<Rightarrow>
          (case allocate (pool_free s) of
             (None, p) \<Rightarrow> Inl (s\<lparr>pool_free := p\<rparr>)
           | (Some right2, p) \<Rightarrow> Inr (right2, s\<lparr>pool_free := p, incoming_right2 := Some right2\<rparr>)))"

definition rx_acquire :: "usb \<Rightarrow> usb + block \<times> block \<times> block \<times> block \<times> usb" where
  "rx_acquire s =
     (case rx_alloc_left s of
        Inl s \<Rightarrow> Inl s
      | Inr (left1, s) \<Rightarrow>
     (case rx_alloc_right s of
        Inl s \<Rightarrow> Inl s
      | Inr (right1, s) \<Rightarrow>
     (case rx_alloc_left2 s of
        Inl s \<Rightarrow> Inl s
      | Inr (left2, s) \<Rightarrow>
     (case rx_alloc_right2 s of
        Inl s \<Rightarrow> Inl s
      | Inr (right2, s) \<Rightarrow> Inr (left1, right1, left2, right2, s)))))"

text \<open>
  The code from the label \<open>send:\<close> to the end of that branch: the filled set is
  published to the ready mailbox and four new incoming blocks are allocated; when an
  allocation fails, the blocks allocated here are released, the incoming slots are set
  to null, the count to 0, and the callback returns (\<open>Inl\<close>).
\<close>

definition rx_drop_incoming :: "usb \<Rightarrow> usb" where
  "rx_drop_incoming s =
     s\<lparr>incoming_left := None, incoming_right := None,
       incoming_left2 := None, incoming_right2 := None,
       incoming_count := 0\<rparr>"

definition rx_send ::
  "block \<Rightarrow> block \<Rightarrow> block \<Rightarrow> block \<Rightarrow> usb \<Rightarrow> usb + block \<times> block \<times> block \<times> block \<times> usb" where
  "rx_send left1 right1 left2 right2 s =
     (let s = s\<lparr>ready_left := Some left1, ready_right := Some right1,
                ready_left2 := Some left2, ready_right2 := Some right2\<rparr>
      in case allocate (pool_free s) of
           (None, p) \<Rightarrow> Inl (rx_drop_incoming (s\<lparr>pool_free := p\<rparr>))
         | (Some left1, p) \<Rightarrow>
      (case allocate p of
           (None, p) \<Rightarrow> Inl (rx_drop_incoming (s\<lparr>pool_free := release left1 p\<rparr>))
         | (Some right1, p) \<Rightarrow>
      (case allocate p of
           (None, p) \<Rightarrow>
             Inl (rx_drop_incoming (s\<lparr>pool_free := release right1 (release left1 p)\<rparr>))
         | (Some left2, p) \<Rightarrow>
      (case allocate p of
           (None, p) \<Rightarrow>
             Inl (rx_drop_incoming
                    (s\<lparr>pool_free := release left2 (release right1 (release left1 p))\<rparr>))
         | (Some right2, p) \<Rightarrow>
             Inr (left1, right1, left2, right2,
                  s\<lparr>pool_free := p,
                    incoming_left := Some left1, incoming_right := Some right1,
                    incoming_left2 := Some left2, incoming_right2 := Some right2\<rparr>)))))"

definition ready_occupied :: "usb \<Rightarrow> bool" where
  "ready_occupied s =
     (ready_left s \<noteq> None \<or> ready_right s \<noteq> None
      \<or> ready_left2 s \<noteq> None \<or> ready_right2 s \<noteq> None)"

text \<open>
  The \<open>while (len > 0)\<close> loop of the callback, on the local variables \<open>data\<close> (as a word
  offset into the receive buffer), \<open>len\<close>, \<open>count\<close> (here \<open>cnt\<close>) and the four block pointers. After
  \<open>send:\<close> the loop goes on with \<open>count = 0\<close>.
\<close>

function rx_loop ::
  "(nat \<Rightarrow> 32 word) \<Rightarrow> nat \<Rightarrow> nat \<Rightarrow> nat \<Rightarrow> block \<Rightarrow> block \<Rightarrow> block \<Rightarrow> block \<Rightarrow> usb \<Rightarrow> usb" where
  "rx_loop rx data len cnt left1 right1 left2 right2 s =
     (if 0 < len then
        (let avail = u32_sub AUDIO_BLOCK_SAMPLES cnt
         in if len < avail then
              s\<lparr>block_data :=
                  copy_to_buffers_4ch len rx data left1 right1 left2 right2 cnt (block_data s),
                incoming_count := (cnt + len) mod 2 ^ 16\<rparr>
            else if 0 < avail then
              (let s = s\<lparr>block_data :=
                         copy_to_buffers_4ch avail rx data left1 right1 left2 right2 cnt
                           (block_data s)\<rparr>;
                   data' = data + avail * 2;
                   len' = len - avail
               in if ready_occupied s then
                    s\<lparr>incoming_count := (cnt + avail) mod 2 ^ 16,
                      usb_audio_overrun_count :=
                        (if 0 < len' then usb_audio_overrun_count s + 1
                         else usb_audio_overrun_count s)\<rparr>
                  else
                    (case rx_send left1 right1 left2 right2 s of
                       Inl s \<Rightarrow> s
                     | Inr (left1', right1', left2', right2', s) \<Rightarrow>
                         rx_loop rx data' len' 0 left1' right1' left2' right2' s))
            else if ready_occupied s then s
            else
              (case rx_send left1 right1 left2 right2 s of
                 Inl s \<Rightarrow> s
               | Inr (left1', right1', left2', right2', s) \<Rightarrow>
                   rx_loop rx data len 0 left1' right1' left2' right2' s))
      else s\<lparr>incoming_count := cnt mod 2 ^ 16\<rparr>)"
  by pat_completeness auto
termination
  by (relation "measure (\<lambda>(rx, data, len, cnt, left1, right1, left2, right2, s).
        2 * len + (if u32_sub AUDIO_BLOCK_SAMPLES cnt = 0 then 1 else 0))")
     (auto simp: u32_sub_def AUDIO_BLOCK_SAMPLES_def split: if_splits)

declare rx_loop.simps [simp del]

text \<open>
  \<open>usb_audio_receive_callback\<close>: \<open>rx\<close> is the content of \<open>rx_buffer\<close> read as 32-bit
  words, \<open>len\<close> the number of bytes received.
\<close>

definition usb_audio_receive_callback :: "(nat \<Rightarrow> 32 word) \<Rightarrow> nat \<Rightarrow> usb \<Rightarrow> usb" where
  "usb_audio_receive_callback rx len s =
     (let s = s\<lparr>receive_flag := 1\<rparr>;
          len = len div 8;
          cnt = incoming_count s
      in case rx_acquire s of
           Inl s \<Rightarrow> s
         | Inr (left1, right1, left2, right2, s) \<Rightarrow>
             rx_loop rx 0 len cnt left1 right1 left2 right2 s)"

text \<open>
  \<open>AudioInputUSB::update\<close>. \<open>transmit\<close> appends the samples of the block to the output
  of the channel; \<open>release\<close> returns the block to the pool.
\<close>

definition block_samples :: "usb \<Rightarrow> block \<Rightarrow> 16 word list" where
  "block_samples s b = map (block_data s b) [0..<AUDIO_BLOCK_SAMPLES]"

definition transmit_release :: "block option \<Rightarrow> nat \<Rightarrow> usb \<Rightarrow> usb" where
  "transmit_release blk c s =
     (case blk of
        None \<Rightarrow> s
      | Some b \<Rightarrow>
          s\<lparr>transmitted := (transmitted s)(c := transmitted s c @ block_samples s b),
            pool_free := release b (pool_free s)\<rparr>)"

definition AudioInputUSB_update :: "usb \<Rightarrow> usb" where
  "AudioInputUSB_update s =
     (let left1 = ready_left s;
          right1 = ready_right s;
          left2 = ready_left2 s;
          right2 = ready_right2 s;
          c = incoming_count s;
          f = receive_flag s;
          s = s\<lparr>ready_left := None, ready_right := None,
                ready_left2 := None, ready_right2 := None, receive_flag := 0\<rparr>;
          s = (if f \<noteq> 0
               then s\<lparr>feedback_accumulator :=
                        feedback_accumulator s
                        + of_int (int (AUDIO_BLOCK_SAMPLES div 2) - int c)\<rparr>
               else s);
          s = (if left1 = None \<or> right1 = None \<or> left2 = None \<or> right2 = None
               then (let s = s\<lparr>usb_audio_underrun_count := usb_audio_underrun_count s + 1\<rparr>
                     in if f \<noteq> 0
                        then s\<lparr>feedback_accumulator := feedback_accumulator s + 3500\<rparr>
                        else s)
               else s);
          s = transmit_release left1 0 s;
          s = transmit_release right1 1 s;
          s = transmit_release left2 2 s;
          s = transmit_release right2 3 s
      in s)"

subsection \<open>The transmit path\<close>

definition AudioOutputUSB_begin :: "usb \<Rightarrow> usb" where
  "AudioOutputUSB_begin s =
     s\<lparr>output_update_responsibility := False,
       left_1st := None, right_1st := None, left2_1st := None, right2_1st := None,
       left_2nd := None, right_2nd := None, left2_2nd := None, right2_2nd := None,
       offset_1st := 0\<rparr>"

text \<open>
  \<open>copy_from_buffers_4ch\<close>: \<open>dst\<close> is the word offset of the destination pointer into the
  transmit buffer; the four sources are the data of the blocks from sample \<open>off\<close> on.
  An \<open>int16_t\<close> sample is promoted to \<open>int\<close> (sign extension, \<open>scast\<close>) before the
  shift and the mask.
\<close>

primrec copy_from_buffers_4ch ::
  "nat \<Rightarrow> nat \<Rightarrow> block \<Rightarrow> block \<Rightarrow> block \<Rightarrow> block \<Rightarrow> nat
     \<Rightarrow> (block \<Rightarrow> nat \<Rightarrow> 16 word) \<Rightarrow> (nat \<Rightarrow> 32 word) \<Rightarrow> (nat \<Rightarrow> 32 word)" where
  "copy_from_buffers_4ch 0 dst left1 right1 left2 right2 off d buf = buf"
| "copy_from_buffers_4ch (Suc i) dst left1 right1 left2 right2 off d buf =
     (let buf = copy_from_buffers_4ch i dst left1 right1 left2 right2 off d buf;
          buf = buf(dst + 2 * i :=
                  push_bit 16 (scast (d right1 (off + i))) OR (scast (d left1 (off + i)) AND 0xFFFF));
          buf = buf(dst + 2 * i + 1 :=
                  push_bit 16 (scast (d right2 (off + i))) OR (scast (d left2 (off + i)) AND 0xFFFF))
      in buf)"

text \<open>\<open>memset(p, 0, n)\<close> on an array of samples from index 0, and on words from \<open>start\<close>.\<close>

primrec memset_samples :: "nat \<Rightarrow> (nat \<Rightarrow> 16 word) \<Rightarrow> (nat \<Rightarrow> 16 word)" where
  "memset_samples 0 a = a"
| "memset_samples (Suc i) a = (memset_samples i a)(i := 0)"

primrec memset_words_at :: "nat \<Rightarrow> nat \<Rightarrow> (nat \<Rightarrow> 32 word) \<Rightarrow> (nat \<Rightarrow> 32 word)" where
  "memset_words_at start 0 a = a"
| "memset_words_at start (Suc i) a = (memset_words_at start i a)(start + i := 0)"

text \<open>
  \<open>AudioOutputUSB::update\<close>. \<open>rcv0 \<dots> rcv3\<close> are the answers of \<open>receiveWritable(0..3)\<close>
  and \<open>setting\<close> is the value of the global \<open>usb_audio_transmit_setting\<close> (an 8-bit
  word), which the USB stack writes. In the overrun branch the source releases the four
  discarded pointers without a test; they are non-null in every reachable state, and
  the release of a null pointer is written here as no release.
\<close>

definition release_opt :: "block option \<Rightarrow> pool \<Rightarrow> pool" where
  "release_opt blk p = (case blk of None \<Rightarrow> p | Some b \<Rightarrow> release b p)"

definition tx_silence :: "block option \<Rightarrow> usb \<Rightarrow> block option \<times> usb" where
  "tx_silence blk s =
     (case blk of
        Some b \<Rightarrow> (Some b, s)
      | None \<Rightarrow>
          (case allocate (pool_free s) of
             (None, p) \<Rightarrow> (None, s\<lparr>pool_free := p\<rparr>)
           | (Some b, p) \<Rightarrow>
               (Some b, s\<lparr>pool_free := p,
                          block_data := (block_data s)
                            (b := memset_samples AUDIO_BLOCK_SAMPLES (block_data s b))\<rparr>)))"

definition tx_enqueue :: "block \<Rightarrow> block \<Rightarrow> block \<Rightarrow> block \<Rightarrow> usb \<Rightarrow> usb" where
  "tx_enqueue left1 right1 left2 right2 s =
     (if left_1st s = None then
        s\<lparr>left_1st := Some left1, right_1st := Some right1,
          left2_1st := Some left2, right2_1st := Some right2,
          offset_1st := 0\<rparr>
      else if left_2nd s = None then
        s\<lparr>left_2nd := Some left1, right_2nd := Some right1,
          left2_2nd := Some left2, right2_2nd := Some right2\<rparr>
      else
        (let discard1 = left_1st s;
             discard2 = right_1st s;
             discard3 = left2_1st s;
             discard4 = right2_1st s
         in s\<lparr>left_1st := left_2nd s, right_1st := right_2nd s,
              left2_1st := left2_2nd s, right2_1st := right2_2nd s,
              left_2nd := Some left1, right_2nd := Some right1,
              left2_2nd := Some left2, right2_2nd := Some right2,
              offset_1st := 0,
              pool_free :=
                release_opt discard4 (release_opt discard3
                  (release_opt discard2 (release_opt discard1 (pool_free s))))\<rparr>))"

definition AudioOutputUSB_update ::
  "block option \<Rightarrow> block option \<Rightarrow> block option \<Rightarrow> block option \<Rightarrow> 8 word \<Rightarrow> usb \<Rightarrow> usb" where
  "AudioOutputUSB_update rcv0 rcv1 rcv2 rcv3 setting s =
     (if setting = 0 then
        (let p = pool_free s;
             p = release_opt rcv0 p;
             p = release_opt rcv1 p;
             p = release_opt rcv2 p;
             p = release_opt rcv3 p;
             p = release_opt (left_1st s) p;
             p = release_opt (left_2nd s) p;
             p = release_opt (right_1st s) p;
             p = release_opt (right_2nd s) p;
             p = release_opt (left2_1st s) p;
             p = release_opt (left2_2nd s) p;
             p = release_opt (right2_1st s) p;
             p = release_opt (right2_2nd s) p
         in s\<lparr>pool_free := p,
              left_1st := None, left_2nd := None, right_1st := None, right_2nd := None,
              left2_1st := None, left2_2nd := None, right2_1st := None, right2_2nd := None,
              offset_1st := 0\<rparr>)
      else
        (let (left1, s) = tx_silence rcv0 s;
             (right1, s) = tx_silence rcv1 s;
             (left2, s) = tx_silence rcv2 s;
             (right2, s) = tx_silence rcv3 s
         in case (left1, right1, left2, right2) of
              (Some l1, Some r1, Some l2, Some r2) \<Rightarrow> tx_enqueue l1 r1 l2 r2 s
            | _ \<Rightarrow>
                s\<lparr>pool_free :=
                    release_opt right2 (release_opt left2
                      (release_opt right1 (release_opt left1 (pool_free s))))\<rparr>))"

text \<open>
  One pass of the loop body of \<open>usb_audio_transmit_callback\<close> with a queued head entry:
  copy, advance, and release and shift when the head entry is used up. The result is
  the new \<open>len\<close> and the new state.
\<close>

definition tx_consume ::
  "nat \<Rightarrow> nat \<Rightarrow> block \<Rightarrow> block \<Rightarrow> block \<Rightarrow> block \<Rightarrow> usb \<Rightarrow> nat \<times> usb" where
  "tx_consume target len left1 right1 left2 right2 s =
     (let num = target - len;
          offset = offset_1st s;
          avail = u32_sub AUDIO_BLOCK_SAMPLES offset;
          num = (if avail < num then avail else num);
          s = s\<lparr>usb_audio_transmit_buffer :=
                  copy_from_buffers_4ch num (len * 2) left1 right1 left2 right2 offset
                    (block_data s) (usb_audio_transmit_buffer s)\<rparr>;
          len = len + num;
          offset = offset + num
      in if AUDIO_BLOCK_SAMPLES \<le> offset then
           (len,
            s\<lparr>pool_free :=
                release right2 (release left2 (release right1 (release left1 (pool_free s)))),
              left_1st := left_2nd s, left_2nd := None,
              right_1st := right_2nd s, right_2nd := None,
              left2_1st := left2_2nd s, left2_2nd := None,
              right2_1st := right2_2nd s, right2_2nd := None,
              offset_1st := 0\<rparr>)
         else (len, s\<lparr>offset_1st := offset mod 2 ^ 16\<rparr>))"

text \<open>
  The \<open>while (len < target)\<close> loop. With a null head entry the loop zero-fills and
  stops: the buffer is declared as \<open>uint16_t\<close>, so \<open>usb_audio_transmit_buffer + len*2\<close>
  is the byte offset \<open>4*len\<close>, that is word \<open>len\<close>, and \<open>num * 8\<close> bytes are \<open>2 * num\<close>
  words. The result is \<open>None\<close> when the loop would dereference a null pointer: the
  source tests \<open>left_1st\<close> only and reads the data of all four head blocks.
\<close>

function tx_loop :: "nat \<Rightarrow> nat \<Rightarrow> usb \<Rightarrow> usb option" where
  "tx_loop target len s =
     (if len < target then
        (case left_1st s of
           None \<Rightarrow>
             Some (s\<lparr>usb_audio_transmit_buffer :=
                       memset_words_at len (2 * (target - len)) (usb_audio_transmit_buffer s)\<rparr>)
         | Some left1 \<Rightarrow>
             (case (right_1st s, left2_1st s, right2_1st s) of
                (Some right1, Some left2, Some right2) \<Rightarrow>
                  tx_loop target
                    (fst (tx_consume target len left1 right1 left2 right2 s))
                    (snd (tx_consume target len left1 right1 left2 right2 s))
              | _ \<Rightarrow> None))
      else Some s)"
  by pat_completeness auto
termination
  by (relation "measure (\<lambda>(target, len, s).
        3 * (target - len) + (if left_1st s = None then 0 else 1)
        + (if left_2nd s = None then 0 else 1))")
     (auto simp: tx_consume_def Let_def u32_sub_def AUDIO_BLOCK_SAMPLES_def split: if_splits)

declare tx_loop.simps [simp del]

text \<open>
  \<open>usb_audio_transmit_callback\<close>: the result is the new state and the number of bytes
  to transmit, or \<open>None\<close> for a null dereference.
\<close>

definition tx_target :: "usb \<Rightarrow> nat \<times> usb" where
  "tx_target s =
     (if tx_count s + 1 < 10 then (44, s\<lparr>tx_count := tx_count s + 1\<rparr>)
      else (45, s\<lparr>tx_count := 0\<rparr>))"

definition usb_audio_transmit_callback :: "usb \<Rightarrow> (usb \<times> nat) option" where
  "usb_audio_transmit_callback s =
     (let (target, s) = tx_target s
      in case tx_loop target 0 s of
           None \<Rightarrow> None
         | Some s \<Rightarrow> Some (s, target * 8))"

text \<open>
  The states reachable through \<open>AudioOutputUSB::begin\<close>, \<open>AudioOutputUSB::update\<close> and
  \<open>usb_audio_transmit_callback\<close>.
\<close>

inductive tx_reachable :: "usb \<Rightarrow> bool" where
  tx_reachable_begin: "tx_reachable (AudioOutputUSB_begin s)"
| tx_reachable_update:
    "tx_reachable s \<Longrightarrow> tx_reachable (AudioOutputUSB_update rcv0 rcv1 rcv2 rcv3 setting s)"
| tx_reachable_callback:
    "tx_reachable s \<Longrightarrow> usb_audio_transmit_callback s = Some (s', n) \<Longrightarrow> tx_reachable s'"

text \<open>A state with everything null, zero and empty, and a pool of the blocks \<open>p\<close>.\<close>

definition usb0 :: "pool \<Rightarrow> usb" where
  "usb0 p =
     \<lparr>input_update_responsibility = False,
      incoming_left = None, incoming_right = None,
      incoming_left2 = None, incoming_right2 = None,
      ready_left = None, ready_right = None, ready_left2 = None, ready_right2 = None,
      incoming_count = 0, receive_flag = 0,
      feedback_accumulator = 739875226,
      usb_audio_underrun_count = 0, usb_audio_overrun_count = 0,
      output_update_responsibility = False,
      left_1st = None, left_2nd = None, right_1st = None, right_2nd = None,
      left2_1st = None, left2_2nd = None, right2_1st = None, right2_2nd = None,
      offset_1st = 0, tx_count = 5,
      usb_audio_transmit_buffer = (\<lambda>j. 0),
      pool_free = p,
      block_data = (\<lambda>b k. 0),
      transmitted = (\<lambda>c. [])\<rparr>"

subsection \<open>Runs of the receive path, cycles and example states\<close>

text \<open>
  A received packet is the content of \<open>rx_buffer\<close>, read as 32-bit words, with the number
  of bytes received; \<open>rx_packets\<close> runs the receive callback on a sequence of packets.
\<close>

type_synonym packet = "(nat \<Rightarrow> 32 word) \<times> nat"

primrec rx_packets :: "packet list \<Rightarrow> usb \<Rightarrow> usb" where
  "rx_packets [] s = s"
| "rx_packets (p # ps) s = rx_packets ps (usb_audio_receive_callback (fst p) (snd p) s)"

text \<open>A receive buffer of silence.\<close>

definition rx_silence :: "nat \<Rightarrow> 32 word" where
  "rx_silence = (\<lambda>j. 0)"

text \<open>The blocks held in the four incoming slots, in slot order.\<close>

definition opt_list :: "'a option \<Rightarrow> 'a list" where
  "opt_list x = (case x of None \<Rightarrow> [] | Some a \<Rightarrow> [a])"

definition incoming_blocks :: "usb \<Rightarrow> block list" where
  "incoming_blocks s =
     opt_list (incoming_left s) @ opt_list (incoming_right s)
     @ opt_list (incoming_left2 s) @ opt_list (incoming_right2 s)"

text \<open>
  The underrun signal that \<open>AudioInputUSB::update\<close> tests: a packet has arrived since
  the last update and some channel of the ready mailbox is null.
\<close>

definition underrun_signal :: "usb \<Rightarrow> bool" where
  "underrun_signal s =
     (receive_flag s \<noteq> 0
      \<and> (ready_left s = None \<or> ready_right s = None
         \<or> ready_left2 s = None \<or> ready_right2 s = None))"

text \<open>
  A sequence of receive-side update cycles: in each cycle the packets of the cycle
  arrive and then \<open>AudioInputUSB::update\<close> runs. \<open>underrun_cycles\<close> says that every
  update of the sequence observes the underrun signal, and \<open>cycle_counts\<close> lists the
  \<open>incoming_count\<close> that each update reads.
\<close>

primrec rx_cycles :: "packet list list \<Rightarrow> usb \<Rightarrow> usb" where
  "rx_cycles [] s = s"
| "rx_cycles (ps # pss) s = rx_cycles pss (AudioInputUSB_update (rx_packets ps s))"

primrec underrun_cycles :: "packet list list \<Rightarrow> usb \<Rightarrow> bool" where
  "underrun_cycles [] s = True"
| "underrun_cycles (ps # pss) s =
     (underrun_signal (rx_packets ps s)
      \<and> underrun_cycles pss (AudioInputUSB_update (rx_packets ps s)))"

primrec cycle_counts :: "packet list list \<Rightarrow> usb \<Rightarrow> nat list" where
  "cycle_counts [] s = []"
| "cycle_counts (ps # pss) s =
     incoming_count (rx_packets ps s)
     # cycle_counts pss (AudioInputUSB_update (rx_packets ps s))"

text \<open>
  Example states of the receive path: after \<open>begin\<close> with a pool of eight blocks, and
  after a first packet of 128 samples has filled and published the blocks 1 to 4.
\<close>

definition rx_begun :: usb where
  "rx_begun = AudioInputUSB_begin (usb_audio_configure (usb0 [1, 2, 3, 4, 5, 6, 7, 8]))"

definition rx_published :: usb where
  "rx_published = usb_audio_receive_callback rx_silence 1024 rx_begun"

text \<open>
  After \<open>begin\<close> with a pool of six blocks and a packet of 100 samples: the blocks 1 to 4
  are in the incoming slots, two blocks are free.
\<close>

definition rx_short_pool :: usb where
  "rx_short_pool =
     usb_audio_receive_callback rx_silence 800 (AudioInputUSB_begin (usb0 [1, 2, 3, 4, 9, 10]))"

text \<open>
  The invariant of the output queue: the offset into the head entry is below the block
  length, and in each queue entry the pointers of the channels \<open>right\<close>, \<open>left2\<close> and
  \<open>right2\<close> are null exactly when the pointer of the channel \<open>left\<close> is.
\<close>

definition tx_inv :: "usb \<Rightarrow> bool" where
  "tx_inv s =
     (offset_1st s < AUDIO_BLOCK_SAMPLES
      \<and> (right_1st s = None) = (left_1st s = None)
      \<and> (left2_1st s = None) = (left_1st s = None)
      \<and> (right2_1st s = None) = (left_1st s = None)
      \<and> (right_2nd s = None) = (left_2nd s = None)
      \<and> (left2_2nd s = None) = (left_2nd s = None)
      \<and> (right2_2nd s = None) = (left_2nd s = None))"

text \<open>
  Example states of the transmit path: after \<open>begin\<close> and one update that queues the
  blocks 11 to 14, whose samples all have the value 1, and after two transmit callbacks
  of 44 samples each have read from that entry.
\<close>

definition tx_queued :: usb where
  "tx_queued =
     AudioOutputUSB_update (Some 11) (Some 12) (Some 13) (Some 14) 1
       (AudioOutputUSB_begin ((usb0 [])\<lparr>block_data := (\<lambda>b k. 1)\<rparr>))"

definition tx_after_two :: usb where
  "tx_after_two =
     fst (the (usb_audio_transmit_callback (fst (the (usb_audio_transmit_callback tx_queued)))))"

subsection \<open>Streams through the receive path\<close>

text \<open>
  A frame is one 4-channel sample as it stands in the receive buffer: the word with the
  channels L1 and R1 and the word with the channels L2 and R2. \<open>frame_words p\<close> is the
  receive buffer that holds the frames \<open>p\<close>, and \<open>channel_of c f\<close> is the 16-bit sample
  of channel \<open>c\<close> (0 = L1, 1 = R1, 2 = L2, 3 = R2) in the frame \<open>f\<close>: the de-interleaved
  stream of channel \<open>c\<close> is \<open>map (channel_of c)\<close> of the frames.
\<close>

type_synonym frame = "32 word \<times> 32 word"

definition frame_words :: "frame list \<Rightarrow> nat \<Rightarrow> 32 word" where
  "frame_words p j = (if even j then fst (p ! (j div 2)) else snd (p ! (j div 2)))"

definition channel_of :: "nat \<Rightarrow> frame \<Rightarrow> 16 word" where
  "channel_of c f =
     (if c = 0 then ucast (fst f AND 0xFFFF)
      else if c = 1 then ucast (drop_bit 16 (fst f))
      else if c = 2 then ucast (snd f AND 0xFFFF)
      else ucast (drop_bit 16 (snd f)))"

text \<open>
  The events of the receive path: a packet of frames arrives (the callback runs with
  the byte count \<open>8 * length p\<close>), or \<open>AudioInputUSB::update\<close> drains the mailbox.
\<close>

datatype rx_event = Packet "frame list" | Update

primrec rx_step :: "rx_event \<Rightarrow> usb \<Rightarrow> usb" where
  "rx_step (Packet p) s = usb_audio_receive_callback (frame_words p) (8 * length p) s"
| "rx_step Update s = AudioInputUSB_update s"

primrec rx_run :: "rx_event list \<Rightarrow> usb \<Rightarrow> usb" where
  "rx_run [] s = s"
| "rx_run (e # es) s = rx_run es (rx_step e s)"

primrec frames_of :: "rx_event list \<Rightarrow> frame list" where
  "frames_of [] = []"
| "frames_of (e # es) = (case e of Packet p \<Rightarrow> p | Update \<Rightarrow> []) @ frames_of es"

text \<open>
  The samples of channel \<open>c\<close> that the receive path has taken in: those transmitted
  downstream, then those of the block in the ready mailbox, then the first
  \<open>incoming_count\<close> samples of the incoming block.
\<close>

definition incoming_slot :: "nat \<Rightarrow> usb \<Rightarrow> block option" where
  "incoming_slot c s =
     (if c = 0 then incoming_left s else if c = 1 then incoming_right s
      else if c = 2 then incoming_left2 s else incoming_right2 s)"

definition ready_slot :: "nat \<Rightarrow> usb \<Rightarrow> block option" where
  "ready_slot c s =
     (if c = 0 then ready_left s else if c = 1 then ready_right s
      else if c = 2 then ready_left2 s else ready_right2 s)"

definition rx_stream :: "usb \<Rightarrow> nat \<Rightarrow> 16 word list" where
  "rx_stream s c =
     transmitted s c
     @ (case ready_slot c s of None \<Rightarrow> [] | Some b \<Rightarrow> block_samples s b)
     @ (case incoming_slot c s of
          None \<Rightarrow> []
        | Some b \<Rightarrow> take (incoming_count s) (block_samples s b))"

text \<open>
  The assumptions of the reassembly property, checked along a run. When a packet
  arrives, the pool has a free block for every allocation of the callback (one for
  each null incoming slot, four more when the packet completes the block set), and
  when the packet completes the block set, the mailbox has been drained and the packet
  does not complete a second set.
\<close>

definition ready_blocks :: "usb \<Rightarrow> block list" where
  "ready_blocks s =
     opt_list (ready_left s) @ opt_list (ready_right s)
     @ opt_list (ready_left2 s) @ opt_list (ready_right2 s)"

definition rx_event_ok :: "rx_event \<Rightarrow> usb \<Rightarrow> bool" where
  "rx_event_ok e s =
     (case e of
        Update \<Rightarrow> True
      | Packet p \<Rightarrow>
          (if incoming_count s + length p < AUDIO_BLOCK_SAMPLES
           then 4 - length (incoming_blocks s) \<le> length (pool_free s)
           else 4 - length (incoming_blocks s) + 4 \<le> length (pool_free s)
                \<and> ready_blocks s = []
                \<and> incoming_count s + length p < 2 * AUDIO_BLOCK_SAMPLES))"

primrec rx_assumed :: "rx_event list \<Rightarrow> usb \<Rightarrow> bool" where
  "rx_assumed [] s = True"
| "rx_assumed (e # es) s = (rx_event_ok e s \<and> rx_assumed es (rx_step e s))"

text \<open>
  The invariant of the receive path in runs without allocation failure: the count is
  below the block length, the incoming slots are all filled or all null (with count
  0), the mailbox is all filled or all null, and no block is held twice or held and
  free at once.
\<close>

definition rx_inv :: "usb \<Rightarrow> bool" where
  "rx_inv s =
     (incoming_count s < AUDIO_BLOCK_SAMPLES
      \<and> (length (incoming_blocks s) = 4 \<or> incoming_blocks s = [] \<and> incoming_count s = 0)
      \<and> (length (ready_blocks s) = 4 \<or> ready_blocks s = [])
      \<and> distinct (incoming_blocks s @ ready_blocks s @ pool_free s))"

section \<open>Verification of the TDM transmit engine\<close>

lemma memcpy_tdm_tx_loop_frame:
  "(\<And>m. j \<noteq> dest + 8 * m) \<Longrightarrow> memcpy_tdm_tx_loop n dest src1 src2 buf j = buf j"
proof (induction n)
  case 0
  then show ?case by simp
next
  case (Suc n)
  have a: "j \<noteq> dest + 32 * n" using Suc.prems [of "4 * n"] by simp
  have b: "j \<noteq> dest + 32 * n + 8" using Suc.prems [of "4 * n + 1"] by simp
  have c: "j \<noteq> dest + 32 * n + 16" using Suc.prems [of "4 * n + 2"] by simp
  have d: "j \<noteq> dest + 32 * n + 24" using Suc.prems [of "4 * n + 3"] by simp
  show ?case using a b c d Suc.IH Suc.prems by (simp add: Let_def)
qed

lemma memcpy_tdm_tx_loop_beyond:
  "dest + 32 * n \<le> j \<Longrightarrow> memcpy_tdm_tx_loop n dest src1 src2 buf j = buf j"
  by (induction n) (simp_all add: Let_def)

lemma memcpy_tdm_tx_loop_out1:
  "k < 2 * n \<Longrightarrow>
   memcpy_tdm_tx_loop n dest src1 src2 buf (dest + 16 * k) = tdm_out1 (src1 k) (src2 k)"
proof (induction n)
  case 0
  then show ?case by simp
next
  case (Suc n)
  have "k < 2 * n \<or> k = 2 * n \<or> k = 2 * n + 1" using Suc.prems by arith
  then consider "k < 2 * n" | "k = 2 * n" | "k = 2 * n + 1" by blast
  then show ?case
  proof cases
    case 1
    then show ?thesis using Suc.IH by (simp add: Let_def)
  next
    case 2
    then show ?thesis by (simp add: Let_def)
  next
    case 3
    then show ?thesis by (simp add: Let_def)
  qed
qed

lemma memcpy_tdm_tx_loop_out2:
  "k < 2 * n \<Longrightarrow>
   memcpy_tdm_tx_loop n dest src1 src2 buf (dest + 16 * k + 8) = tdm_out2 (src1 k) (src2 k)"
proof (induction n)
  case 0
  then show ?case by simp
next
  case (Suc n)
  have "k < 2 * n \<or> k = 2 * n \<or> k = 2 * n + 1" using Suc.prems by arith
  then consider "k < 2 * n" | "k = 2 * n" | "k = 2 * n + 1" by blast
  then show ?case
  proof cases
    case 1
    then show ?thesis using Suc.IH by (simp add: Let_def)
  next
    case 2
    then show ?thesis by (simp add: Let_def)
  next
    case 3
    then show ?thesis by (simp add: Let_def)
  qed
qed

lemma isr_fill_out1:
  "p < P \<Longrightarrow> P \<le> 8 \<Longrightarrow> k < 64 \<Longrightarrow>
   isr_fill P dest mem s buf (dest + p + 16 * k)
     = tdm_out1 (isr_src mem s (2 * p) k) (isr_src mem s (2 * p + 1) k)"
proof (induction P)
  case 0
  then show ?case by simp
next
  case (Suc P)
  show ?case
  proof (cases "p = P")
    case True
    have "memcpy_tdm_tx_loop 32 (dest + P) (isr_src mem s (2 * P)) (isr_src mem s (2 * P + 1))
            (isr_fill P dest mem s buf) (dest + P + 16 * k)
          = tdm_out1 (isr_src mem s (2 * P) k) (isr_src mem s (2 * P + 1) k)"
      using Suc.prems by (intro memcpy_tdm_tx_loop_out1) simp
    then show ?thesis using True by (simp add: memcpy_tdm_tx_def AUDIO_BLOCK_SAMPLES_def)
  next
    case False
    then have lt: "p < P" using Suc.prems by simp
    have ne: "\<And>m. dest + p + 16 * k \<noteq> dest + P + 8 * m"
      using lt Suc.prems by presburger
    show ?thesis using Suc.IH lt Suc.prems
      by (simp add: memcpy_tdm_tx_def memcpy_tdm_tx_loop_frame [OF ne])
  qed
qed

lemma isr_fill_out2:
  "p < P \<Longrightarrow> P \<le> 8 \<Longrightarrow> k < 64 \<Longrightarrow>
   isr_fill P dest mem s buf (dest + p + 16 * k + 8)
     = tdm_out2 (isr_src mem s (2 * p) k) (isr_src mem s (2 * p + 1) k)"
proof (induction P)
  case 0
  then show ?case by simp
next
  case (Suc P)
  show ?case
  proof (cases "p = P")
    case True
    have "memcpy_tdm_tx_loop 32 (dest + P) (isr_src mem s (2 * P)) (isr_src mem s (2 * P + 1))
            (isr_fill P dest mem s buf) (dest + P + 16 * k + 8)
          = tdm_out2 (isr_src mem s (2 * P) k) (isr_src mem s (2 * P + 1) k)"
      using Suc.prems by (intro memcpy_tdm_tx_loop_out2) simp
    then show ?thesis using True by (simp add: memcpy_tdm_tx_def AUDIO_BLOCK_SAMPLES_def)
  next
    case False
    then have lt: "p < P" using Suc.prems by simp
    have ne: "\<And>m. dest + p + 16 * k + 8 \<noteq> dest + P + 8 * m"
      using lt Suc.prems by presburger
    show ?thesis using Suc.IH lt Suc.prems
      by (simp add: memcpy_tdm_tx_def memcpy_tdm_tx_loop_frame [OF ne])
  qed
qed

lemma slot_blocks_cong:
  "(\<And>i. i < n \<Longrightarrow> f i = g i) \<Longrightarrow> slot_blocks f n = slot_blocks g n"
  by (induction n) (simp_all split: option.splits)

lemma slot_blocks_all_None:
  "(\<And>i. i < n \<Longrightarrow> f i = None) \<Longrightarrow> slot_blocks f n = []"
  by (induction n) simp_all

lemma isr_release_slots:
  "block_input (isr_release n s) i = (if i < n then None else block_input s i)"
  by (induction n) (auto simp: Let_def split: option.splits)

lemma isr_release_pool:
  "mset (free_blocks (isr_release n s))
     = mset (free_blocks s) + mset (slot_blocks (block_input s) n)"
proof (induction n)
  case 0
  then show ?case by simp
next
  case (Suc n)
  have "block_input (isr_release n s) n = block_input s n"
    by (simp add: isr_release_slots)
  then show ?case using Suc.IH
    by (simp add: Let_def release_def split: option.splits)
qed

lemma isr_release_other:
  "tdm_tx_buffer (isr_release n s) = tdm_tx_buffer s"
  "zeros (isr_release n s) = zeros s"
  "update_responsibility (isr_release n s) = update_responsibility s"
  by (induction n) (auto simp: Let_def split: option.splits)

lemma update_take_char:
  "update_take n rcv (prev, s)
     = (\<lambda>i. if i < n then block_input s i else prev i,
        s\<lparr>block_input := \<lambda>i. if i < n then rcv i else block_input s i\<rparr>)"
proof (induction n)
  case 0
  then show ?case by simp
next
  case (Suc n)
  have a: "(\<lambda>i. if i < n then block_input s i else prev i)(n := block_input s n)
             = (\<lambda>i. if i < Suc n then block_input s i else prev i)"
    by (auto simp: fun_eq_iff)
  have b: "(\<lambda>i. if i < n then rcv i else block_input s i)(n := rcv n)
             = (\<lambda>i. if i < Suc n then rcv i else block_input s i)"
    by (auto simp: fun_eq_iff)
  show ?case using a b by (simp add: Suc.IH)
qed

lemma update_take_prev:
  "fst (update_take n rcv (prev, s)) i = (if i < n then block_input s i else prev i)"
  by (simp add: update_take_char)

lemma update_take_slots:
  "block_input (snd (update_take n rcv (prev, s))) i = (if i < n then rcv i else block_input s i)"
  by (simp add: update_take_char)

lemma update_take_other:
  "free_blocks (snd (update_take n rcv (prev, s))) = free_blocks s"
  "tdm_tx_buffer (snd (update_take n rcv (prev, s))) = tdm_tx_buffer s"
  "zeros (snd (update_take n rcv (prev, s))) = zeros s"
  "update_responsibility (snd (update_take n rcv (prev, s))) = update_responsibility s"
  by (simp_all add: update_take_char)

lemma update_release_pool:
  "mset (free_blocks (update_release n prev s)) = mset (free_blocks s) + mset (slot_blocks prev n)"
  by (induction n) (auto simp: Let_def release_def split: option.splits)

lemma update_release_other:
  "block_input (update_release n prev s) = block_input s"
  "tdm_tx_buffer (update_release n prev s) = tdm_tx_buffer s"
  "zeros (update_release n prev s) = zeros s"
  "update_responsibility (update_release n prev s) = update_responsibility s"
  by (induction n) (auto simp: Let_def split: option.splits)

lemma update_slots:
  "block_input (update rcv s) i = (if i < 16 then rcv i else block_input s i)"
  by (simp add: update_def update_release_other update_take_char)

lemma update_pool:
  "mset (free_blocks (update rcv s))
     = mset (free_blocks s) + mset (slot_blocks (block_input s) 16)"
proof -
  obtain prev s1 where ut: "update_take 16 rcv (\<lambda>i. None, s) = (prev, s1)"
    by (cases "update_take 16 rcv (\<lambda>i. None, s)")
  have p: "\<And>i. i < 16 \<Longrightarrow> prev i = block_input s i"
    using update_take_prev [of 16 rcv "\<lambda>i. None" s] ut by simp
  have f: "free_blocks s1 = free_blocks s"
    using update_take_other(1) [of 16 rcv "\<lambda>i. None" s] ut by simp
  have "slot_blocks prev 16 = slot_blocks (block_input s) 16"
    by (rule slot_blocks_cong) (rule p)
  then show ?thesis
    by (simp add: update_def ut update_release_pool f)
qed

lemma update_other:
  "tdm_tx_buffer (update rcv s) = tdm_tx_buffer s"
  "zeros (update rcv s) = zeros s"
  "update_responsibility (update rcv s) = update_responsibility s"
  by (simp_all add: update_def update_release_other update_take_char)

lemma isr_update_all_other:
  "zeros (isr_update_all rcv s) = zeros s"
  "update_responsibility (isr_update_all rcv s) = update_responsibility s"
  by (simp_all add: isr_update_all_def update_other)

lemma isr_update_all_pool:
  "mset (free_blocks (isr_update_all rcv s))
     = mset (free_blocks s)
       + (if update_responsibility s then mset (slot_blocks (block_input s) 16) else {#})"
  by (simp add: isr_update_all_def update_pool)

lemma isr_update_all_slots:
  "i < 16 \<Longrightarrow> block_input (isr_update_all rcv s) i
     = (if update_responsibility s then rcv i else block_input s i)"
  by (simp add: isr_update_all_def update_slots)

lemma isr_buffer:
  "tdm_tx_buffer (isr saddr rcv mem s)
     = isr_fill 8 (isr_dest saddr) mem (isr_update_all rcv s)
         (tdm_tx_buffer (isr_update_all rcv s))"
  by (simp add: isr_def Let_def isr_release_other)

lemma isr_slots: "i < 16 \<Longrightarrow> block_input (isr saddr rcv mem s) i = None"
  by (simp add: isr_def Let_def isr_release_slots)


lemma isr_pool:
  "mset (free_blocks (isr saddr rcv mem s))
     = mset (free_blocks s)
       + (if update_responsibility s
          then mset (slot_blocks (block_input s) 16) + mset (slot_blocks rcv 16)
          else mset (slot_blocks (block_input s) 16))"
proof -
  have "slot_blocks (block_input (isr_update_all rcv s)) 16
          = slot_blocks (if update_responsibility s then rcv else block_input s) 16"
    by (rule slot_blocks_cong) (simp add: isr_update_all_slots)
  then show ?thesis
    by (simp add: isr_def Let_def isr_release_pool isr_update_all_pool)
qed

lemma tdm_cycle_slots: "i < 16 \<Longrightarrow> block_input (tdm_cycle e s) i = None"
  by (cases e) (simp add: tdm_cycle_def isr_slots)

lemma tdm_cycle_pool:
  "mset (free_blocks (tdm_cycle e s))
     = mset (free_blocks s) + mset (slot_blocks (block_input s) 16)
       + mset (slot_blocks (fst e) 16)"
proof -
  obtain rcv saddr mem where e: "e = (rcv, saddr, mem)" by (cases e)
  have "slot_blocks (block_input (update rcv s)) 16 = slot_blocks rcv 16"
    by (rule slot_blocks_cong) (simp add: update_slots)
  then show ?thesis
    by (simp add: e tdm_cycle_def isr_pool update_pool update_other)
qed




lemma isr_words:
  assumes "p < 8" and "k < AUDIO_BLOCK_SAMPLES div 2"
  shows "tdm_tx_buffer (isr saddr rcv mem s) (isr_dest saddr + p + 16 * k)
           = push_bit 16 (isr_src mem (isr_update_all rcv s) (2 * p) k)
             OR (isr_src mem (isr_update_all rcv s) (2 * p + 1) k AND 0xFFFF)"
    and "tdm_tx_buffer (isr saddr rcv mem s) (isr_dest saddr + p + 16 * k + 8)
           = (isr_src mem (isr_update_all rcv s) (2 * p) k AND 0xFFFF0000)
             OR drop_bit 16 (isr_src mem (isr_update_all rcv s) (2 * p + 1) k)"
proof -
  have k: "k < 64" using assms(2) by (simp add: AUDIO_BLOCK_SAMPLES_def)
  show "tdm_tx_buffer (isr saddr rcv mem s) (isr_dest saddr + p + 16 * k)
           = push_bit 16 (isr_src mem (isr_update_all rcv s) (2 * p) k)
             OR (isr_src mem (isr_update_all rcv s) (2 * p + 1) k AND 0xFFFF)"
    using isr_fill_out1 [OF assms(1) _ k] by (simp add: isr_buffer tdm_out1_def)
  show "tdm_tx_buffer (isr saddr rcv mem s) (isr_dest saddr + p + 16 * k + 8)
           = (isr_src mem (isr_update_all rcv s) (2 * p) k AND 0xFFFF0000)
             OR drop_bit 16 (isr_src mem (isr_update_all rcv s) (2 * p + 1) k)"
    using isr_fill_out2 [OF assms(1) _ k] by (simp add: isr_buffer tdm_out2_def)
qed

lemma memcpy_tdm_tx_loop_above:
  "dest + 32 * n < j + 8 \<Longrightarrow> memcpy_tdm_tx_loop n dest src1 src2 buf j = buf j"
  by (induction n) (simp_all add: Let_def)

lemma memcpy_tdm_tx_loop_below:
  "j < dest \<Longrightarrow> memcpy_tdm_tx_loop n dest src1 src2 buf j = buf j"
  by (induction n) (simp_all add: Let_def)

lemma isr_fill_outside:
  assumes "P \<le> 8" and "j < dest \<or> dest + AUDIO_BLOCK_SAMPLES * 8 \<le> j"
  shows "isr_fill P dest mem s buf j = buf j"
  using assms(1)
proof (induction P)
  case 0
  then show ?case by simp
next
  case (Suc P)
  have "j < dest + P \<or> dest + P + 32 * 32 < j + 8"
    using assms(2) Suc.prems by (auto simp: AUDIO_BLOCK_SAMPLES_def)
  then have "memcpy_tdm_tx_loop 32 (dest + P) (isr_src mem s (2 * P)) (isr_src mem s (2 * P + 1))
               (isr_fill P dest mem s buf) j = isr_fill P dest mem s buf j"
    using memcpy_tdm_tx_loop_below memcpy_tdm_tx_loop_above by blast
  then show ?case
    using Suc by (simp add: memcpy_tdm_tx_def AUDIO_BLOCK_SAMPLES_def)
qed

text \<open>
  The ISR writes into the buffer half it has chosen only: every word outside the words
  \<open>dest, \<dots>, dest + AUDIO_BLOCK_SAMPLES*8 - 1\<close> keeps its value, and so does everything
  beyond the end of the buffer.
\<close>

lemma isr_writes_chosen_half:
  assumes "j < isr_dest saddr \<or> isr_dest saddr + AUDIO_BLOCK_SAMPLES * 8 \<le> j"
  shows "tdm_tx_buffer (isr saddr rcv mem s) j = tdm_tx_buffer s j"
proof -
  have "tdm_tx_buffer (isr_update_all rcv s) = tdm_tx_buffer s"
    by (simp add: isr_update_all_def update_other)
  then show ?thesis
    using isr_fill_outside [OF order_refl assms] by (simp add: isr_buffer)
qed

subsection \<open>The claims about the TDM transmit engine\<close>

text \<open>
  C1 (pool balance). \<open>update\<close> puts the block handed over into every slot and releases
  the previous occupant of every slot exactly once. The ISR releases the block of every
  non-null slot exactly once (after the update pass it runs itself when it has the
  update responsibility) and leaves all 16 slots null. Hence after any non-empty
  sequence of full update+ISR cycles, from any state, no slot holds a block, and the
  pool has received exactly the blocks the slots held at the start and the blocks
  deposited during the cycles, each as often as it was held or deposited (the free
  list grows, as a multiset, by these blocks): no block is kept and none is released
  twice. The object never allocates, so no allocation can fail.
\<close>

theorem tdm_pool_balance:
  "mset (free_blocks (update rcv t))
     = mset (free_blocks t) + mset (slot_blocks (block_input t) 16)
   \<and> slot_blocks (block_input (update rcv t)) 16 = slot_blocks rcv 16
   \<and> mset (free_blocks (isr saddr rcv mem u))
     = mset (free_blocks u) + mset (slot_blocks (block_input u) 16)
       + (if update_responsibility u then mset (slot_blocks rcv 16) else {#})
   \<and> slot_blocks (block_input (isr saddr rcv mem u)) 16 = []
   \<and> slot_blocks (block_input (tdm_cycles (e # es) s)) 16 = []
   \<and> mset (free_blocks (tdm_cycles (e # es) s))
     = mset (free_blocks s) + mset (slot_blocks (block_input s) 16)
       + mset (deposited (e # es))"
proof -
  have cycles: "mset (free_blocks (tdm_cycles ds s')) + mset (slot_blocks (block_input (tdm_cycles ds s')) 16)
          = mset (free_blocks s') + mset (slot_blocks (block_input s') 16) + mset (deposited ds)"
    for ds s'
  proof (induction ds arbitrary: s')
    case Nil
    then show ?case by (simp add: deposited_def)
  next
    case (Cons d ds)
    have h: "slot_blocks (block_input (tdm_cycle d s')) 16 = []"
      by (rule slot_blocks_all_None) (simp add: tdm_cycle_slots)
    have "deposited (d # ds) = slot_blocks (fst d) 16 @ deposited ds"
      by (simp add: deposited_def)
    then show ?case
      using Cons.IH [of "tdm_cycle d s'"] h by (simp add: tdm_cycle_pool)
  qed
  have empty: "slot_blocks (block_input (tdm_cycles ds (tdm_cycle d s'))) 16 = []" for d ds s'
  proof (induction ds arbitrary: d s')
    case Nil
    show ?case by (simp, rule slot_blocks_all_None) (simp add: tdm_cycle_slots)
  next
    case (Cons c ds)
    show ?case using Cons [of c "tdm_cycle d s'"] by simp
  qed
  have a: "slot_blocks (block_input (update rcv t)) 16 = slot_blocks rcv 16"
    by (rule slot_blocks_cong) (simp add: update_slots)
  have b: "slot_blocks (block_input (isr saddr rcv mem u)) 16 = []"
    by (rule slot_blocks_all_None) (simp add: isr_slots)
  have c: "slot_blocks (block_input (tdm_cycles (e # es) s)) 16 = []"
    using empty [of es e s] by simp
  show ?thesis
    using cycles [of "e # es" s] a b c by (simp add: update_pool isr_pool)
qed

theorem tdm_pool_balance_witness:
  "slot_blocks (block_input tdm_occupied) 16 = [9]
   \<and> mset (free_blocks (update rcv_one tdm_occupied)) = {#9#}
   \<and> slot_blocks (block_input (update rcv_one tdm_occupied)) 16 = [7]
   \<and> slot_blocks (block_input (tdm_cycles [(rcv_one, 0, mem_example)] tdm_occupied)) 16 = []
   \<and> mset (free_blocks (tdm_cycles [(rcv_one, 0, mem_example)] tdm_occupied)) = {#9, 7#}"
proof -
  have h: "slot_blocks (block_input tdm_occupied) 16 = [9]" "slot_blocks rcv_one 16 = [7]"
    "free_blocks tdm_occupied = []"
    by (simp_all add: tdm_occupied_def tdm0_def rcv_one_def eval_nat_numeral)
  have d: "deposited [(rcv_one, 0, mem_example)] = [7]"
    by (simp add: deposited_def h)
  show ?thesis
    using tdm_pool_balance [where rcv = rcv_one and t = tdm_occupied and saddr = 0
        and mem = mem_example and u = tdm_occupied and e = "(rcv_one, 0, mem_example)"
        and es = "[]" and s = tdm_occupied]
    by (simp add: h d del: tdm_cycles.simps)
qed

text \<open>
  C4 (TDM interleave law). For every channel pair \<open>(2*p, 2*p+1)\<close>, \<open>p < 8\<close>, and every
  source word index \<open>k\<close> of the block, the ISR leaves in the buffer half it fills (the
  upper half, from word 1024, when the DMA reads in the lower half, and the lower half
  otherwise), at word offset \<open>p + 16*k\<close>, the word \<open>(inA << 16) | (inB & 0xFFFF)\<close> and,
  8 words further, the word \<open>(inA & 0xFFFF0000) | (inB >> 16)\<close>. Here \<open>inA\<close> and \<open>inB\<close>
  are the \<open>k\<close>-th 32-bit words of the data of the blocks that the slots \<open>2*p\<close> and
  \<open>2*p+1\<close> hold at the time of the fill: the block just handed over when the ISR runs
  the update pass, the block in the slot otherwise, and the word of \<open>zeros\<close> for a null
  slot.
\<close>

theorem tdm_interleave_law:
  assumes "p < 8" and "k < AUDIO_BLOCK_SAMPLES div 2"
  shows "(let inA = (case (if update_responsibility s then rcv (2 * p) else block_input s (2 * p))
                     of Some a \<Rightarrow> mem a k | None \<Rightarrow> zeros s k);
              inB = (case (if update_responsibility s then rcv (2 * p + 1)
                           else block_input s (2 * p + 1))
                     of Some b \<Rightarrow> mem b k | None \<Rightarrow> zeros s k);
              dest = (if saddr < 4096 then 1024 else 0)
          in isr_dest saddr = dest
             \<and> tdm_tx_buffer (isr saddr rcv mem s) (dest + p + 16 * k)
                 = push_bit 16 inA OR (inB AND 0xFFFF)
             \<and> tdm_tx_buffer (isr saddr rcv mem s) (dest + p + 16 * k + 8)
                 = (inA AND 0xFFFF0000) OR drop_bit 16 inB)"
proof -
  have src: "isr_src mem (isr_update_all rcv s) c k
      = (case (if update_responsibility s then rcv c else block_input s c)
         of Some a \<Rightarrow> mem a k | None \<Rightarrow> zeros s k)" if "c < 16" for c
    using isr_update_all_slots [OF that, of rcv s]
    by (simp add: isr_src_def isr_update_all_other split: option.splits)
  have srcA: "isr_src mem (isr_update_all rcv s) (2 * p) k
      = (case (if update_responsibility s then rcv (2 * p) else block_input s (2 * p))
         of Some a \<Rightarrow> mem a k | None \<Rightarrow> zeros s k)"
    using assms(1) by (intro src) simp
  have srcB: "isr_src mem (isr_update_all rcv s) (2 * p + 1) k
      = (case (if update_responsibility s then rcv (2 * p + 1) else block_input s (2 * p + 1))
         of Some b \<Rightarrow> mem b k | None \<Rightarrow> zeros s k)"
    using assms(1) by (intro src) simp
  have d: "isr_dest saddr = (if saddr < 4096 then 1024 else 0)"
    by (simp add: isr_dest_def AUDIO_BLOCK_SAMPLES_def)
  show ?thesis
    using isr_words [OF assms, of saddr rcv mem s]
    unfolding srcA srcB d Let_def by simp
qed

theorem tdm_interleave_law_witness:
  "(3::nat) < 8 \<and> (5::nat) < AUDIO_BLOCK_SAMPLES div 2
   \<and> tdm_tx_buffer (isr 0 rcv_all mem_example (tdm_begin True tdm0)) 1107 = 0x22224444
   \<and> tdm_tx_buffer (isr 0 rcv_all mem_example (tdm_begin True tdm0)) 1115 = 0x11113333
   \<and> tdm_tx_buffer (isr 4096 rcv_one mem_example tdm_occupied) 82 = 0x33334444 AND 0xFFFF
   \<and> tdm_tx_buffer (isr 4096 rcv_one mem_example tdm_occupied) 90 = drop_bit 16 0x33334444"
proof -
  have p: "(3::nat) < 8" "(2::nat) < 8" by simp_all
  have k: "(5::nat) < AUDIO_BLOCK_SAMPLES div 2" by (simp add: AUDIO_BLOCK_SAMPLES_def)
  have s: "update_responsibility (tdm_begin True tdm0)" "\<not> update_responsibility tdm_occupied"
    "block_input tdm_occupied 4 = None" "block_input tdm_occupied 5 = Some 9"
    "zeros tdm_occupied 5 = 0"
    by (simp_all add: tdm_begin_def tdm_occupied_def tdm0_def)
  show ?thesis
    using p k
      tdm_interleave_law [OF p(1) k, where s = "tdm_begin True tdm0" and rcv = rcv_all
        and mem = mem_example and saddr = 0]
      tdm_interleave_law [OF p(2) k, where s = tdm_occupied and rcv = rcv_one
        and mem = mem_example and saddr = 4096]
    by (simp add: s rcv_all_def mem_example_def Let_def)
qed



section \<open>Verification of the USB receive path\<close>

lemma copy_to_buffers_4ch_other:
  "b \<noteq> left1 \<Longrightarrow> b \<noteq> right1 \<Longrightarrow> b \<noteq> left2 \<Longrightarrow> b \<noteq> right2 \<Longrightarrow>
   copy_to_buffers_4ch n src so left1 right1 left2 right2 c d b = d b"
  by (induction n) (simp_all add: Let_def)

lemma rx_loop_zero:
  "rx_loop rx data 0 cnt left1 right1 left2 right2 s = s\<lparr>incoming_count := cnt mod 2 ^ 16\<rparr>"
  by (subst rx_loop.simps) simp

lemma rx_loop_short:
  assumes "0 < len" and "cnt \<le> AUDIO_BLOCK_SAMPLES" and "cnt + len < AUDIO_BLOCK_SAMPLES"
  shows "rx_loop rx data len cnt left1 right1 left2 right2 s
           = s\<lparr>block_data :=
                 copy_to_buffers_4ch len rx data left1 right1 left2 right2 cnt (block_data s),
               incoming_count := cnt + len\<rparr>"
  using assms
  by (subst rx_loop.simps) (simp add: u32_sub_def AUDIO_BLOCK_SAMPLES_def Let_def)

lemma rx_loop_overrun:
  assumes "cnt < AUDIO_BLOCK_SAMPLES" and "AUDIO_BLOCK_SAMPLES \<le> cnt + len"
    and "ready_occupied s"
  shows "rx_loop rx data len cnt left1 right1 left2 right2 s
           = s\<lparr>block_data :=
                 copy_to_buffers_4ch (AUDIO_BLOCK_SAMPLES - cnt) rx data left1 right1 left2 right2
                   cnt (block_data s),
               incoming_count := AUDIO_BLOCK_SAMPLES,
               usb_audio_overrun_count :=
                 (if AUDIO_BLOCK_SAMPLES < cnt + len then usb_audio_overrun_count s + 1
                  else usb_audio_overrun_count s)\<rparr>"
  using assms
  by (subst rx_loop.simps)
     (auto simp: u32_sub_def AUDIO_BLOCK_SAMPLES_def ready_occupied_def Let_def)

lemma rx_loop_full:
  assumes "0 < len" and "cnt = AUDIO_BLOCK_SAMPLES" and "ready_occupied s"
  shows "rx_loop rx data len cnt left1 right1 left2 right2 s = s"
  using assms
  by (subst rx_loop.simps) (simp add: u32_sub_def AUDIO_BLOCK_SAMPLES_def Let_def)

lemma rx_loop_publish:
  assumes "cnt < AUDIO_BLOCK_SAMPLES" and "AUDIO_BLOCK_SAMPLES \<le> cnt + len"
    and "\<not> ready_occupied s"
  shows "rx_loop rx data len cnt left1 right1 left2 right2 s
           = (case rx_send left1 right1 left2 right2
                     (s\<lparr>block_data :=
                          copy_to_buffers_4ch (AUDIO_BLOCK_SAMPLES - cnt) rx data
                            left1 right1 left2 right2 cnt (block_data s)\<rparr>) of
                Inl s \<Rightarrow> s
              | Inr (left1', right1', left2', right2', s) \<Rightarrow>
                  rx_loop rx (data + (AUDIO_BLOCK_SAMPLES - cnt) * 2)
                    (len - (AUDIO_BLOCK_SAMPLES - cnt)) 0 left1' right1' left2' right2' s)"
  using assms
  by (subst rx_loop.simps)
     (simp add: u32_sub_def AUDIO_BLOCK_SAMPLES_def ready_occupied_def Let_def
        split: sum.splits prod.splits)

lemma rx_acquire_all_Some:
  assumes "incoming_left s = Some l1" and "incoming_right s = Some r1"
    and "incoming_left2 s = Some l2" and "incoming_right2 s = Some r2"
  shows "rx_acquire s = Inr (l1, r1, l2, r2, s)"
  using assms
  by (simp add: rx_acquire_def rx_alloc_left_def rx_alloc_right_def rx_alloc_left2_def
        rx_alloc_right2_def)

lemma rx_full_idle:
  assumes "incoming_left t = Some l1" and "incoming_right t = Some r1"
    and "incoming_left2 t = Some l2" and "incoming_right2 t = Some r2"
    and "ready_occupied t" and "incoming_count t = AUDIO_BLOCK_SAMPLES"
  shows "usb_audio_receive_callback rx len t = t\<lparr>receive_flag := 1\<rparr>"
proof -
  let ?t = "t\<lparr>receive_flag := 1\<rparr>"
  have acq: "rx_acquire ?t = Inr (l1, r1, l2, r2, ?t)"
    using assms by (intro rx_acquire_all_Some) simp_all
  have occ: "ready_occupied ?t" using assms(5) by (simp add: ready_occupied_def)
  have cb: "usb_audio_receive_callback rx len t
              = rx_loop rx 0 (len div 8) (incoming_count t) l1 r1 l2 r2 ?t"
    by (simp add: usb_audio_receive_callback_def Let_def acq)
  show ?thesis
  proof (cases "len div 8 = 0")
    case True
    have "incoming_count t mod 2 ^ 16 = incoming_count t"
      using assms(6) by (simp add: AUDIO_BLOCK_SAMPLES_def)
    then show ?thesis using True cb by (simp add: rx_loop_zero)
  next
    case False
    then show ?thesis using cb rx_loop_full [OF _ assms(6) occ] by simp
  qed
qed

lemma rx_packets_full_idle:
  assumes "incoming_left t = Some l1" and "incoming_right t = Some r1"
    and "incoming_left2 t = Some l2" and "incoming_right2 t = Some r2"
    and "ready_occupied t" and "incoming_count t = AUDIO_BLOCK_SAMPLES"
  shows "rx_packets ps t = (if ps = [] then t else t\<lparr>receive_flag := 1\<rparr>)"
  using assms
proof (induction ps arbitrary: t)
  case Nil
  then show ?case by simp
next
  case (Cons p ps)
  let ?t = "t\<lparr>receive_flag := 1\<rparr>"
  have step: "usb_audio_receive_callback (fst p) (snd p) t = ?t"
    by (rule rx_full_idle [OF Cons.prems])
  have "rx_packets ps ?t = (if ps = [] then ?t else ?t\<lparr>receive_flag := 1\<rparr>)"
    using Cons.prems by (intro Cons.IH) (simp_all add: ready_occupied_def)
  then show ?case using step by simp
qed

lemma rx_overrun_step:
  assumes "incoming_left s = Some l1" and "incoming_right s = Some r1"
    and "incoming_left2 s = Some l2" and "incoming_right2 s = Some r2"
    and "ready_occupied s" and "incoming_count s < AUDIO_BLOCK_SAMPLES"
    and "AUDIO_BLOCK_SAMPLES \<le> incoming_count s + len div 8"
  shows "usb_audio_receive_callback rx len s
           = s\<lparr>receive_flag := 1,
               block_data :=
                 copy_to_buffers_4ch (AUDIO_BLOCK_SAMPLES - incoming_count s) rx 0 l1 r1 l2 r2
                   (incoming_count s) (block_data s),
               incoming_count := AUDIO_BLOCK_SAMPLES,
               usb_audio_overrun_count :=
                 (if AUDIO_BLOCK_SAMPLES < incoming_count s + len div 8
                  then usb_audio_overrun_count s + 1 else usb_audio_overrun_count s)\<rparr>"
proof -
  let ?t = "s\<lparr>receive_flag := 1\<rparr>"
  have acq: "rx_acquire ?t = Inr (l1, r1, l2, r2, ?t)"
    using assms by (intro rx_acquire_all_Some) simp_all
  have occ: "ready_occupied ?t" using assms(5) by (simp add: ready_occupied_def)
  have cb: "usb_audio_receive_callback rx len s
              = rx_loop rx 0 (len div 8) (incoming_count s) l1 r1 l2 r2 ?t"
    by (simp add: usb_audio_receive_callback_def Let_def acq)
  show ?thesis
    using cb rx_loop_overrun [OF assms(6) assms(7) occ, of rx 0 l1 r1 l2 r2] by simp
qed

lemma short_list_cases:
  assumes "length xs < 4"
  shows "xs = [] \<or> (\<exists>a. xs = [a]) \<or> (\<exists>a b. xs = [a, b]) \<or> (\<exists>a b c. xs = [a, b, c])"
proof (cases xs)
  case Nil
  then show ?thesis by simp
next
  case (Cons a ys)
  note xs = Cons
  show ?thesis
  proof (cases ys)
    case Nil
    then show ?thesis using xs by simp
  next
    case (Cons b zs)
    note ys = Cons
    show ?thesis
    proof (cases zs)
      case Nil
      then show ?thesis using xs ys by simp
    next
      case (Cons c ws)
      then have "ws = []" using assms xs ys by simp
      then show ?thesis using xs ys Cons by simp
    qed
  qed
qed

lemma rx_send_fails:
  assumes "length (pool_free s) < 4"
  shows "rx_send l1 r1 l2 r2 s
           = Inl (s\<lparr>ready_left := Some l1, ready_right := Some r1,
                    ready_left2 := Some l2, ready_right2 := Some r2,
                    pool_free := rev (pool_free s),
                    incoming_left := None, incoming_right := None,
                    incoming_left2 := None, incoming_right2 := None,
                    incoming_count := 0\<rparr>)"
proof -
  consider "pool_free s = []" | a where "pool_free s = [a]" | a b where "pool_free s = [a, b]"
    | a b c where "pool_free s = [a, b, c]"
    using short_list_cases [OF assms] by blast
  then show ?thesis
  proof cases
    case 1
    then show ?thesis
      by (simp add: rx_send_def allocate_def release_def rx_drop_incoming_def Let_def)
  next
    case 2
    then show ?thesis
      by (simp add: rx_send_def allocate_def release_def rx_drop_incoming_def Let_def)
  next
    case 3
    then show ?thesis
      by (simp add: rx_send_def allocate_def release_def rx_drop_incoming_def Let_def)
  next
    case 4
    then show ?thesis
      by (simp add: rx_send_def allocate_def release_def rx_drop_incoming_def Let_def)
  qed
qed

lemma rx_acquire_fails:
  assumes "length (incoming_blocks s) + length (pool_free s) < 4"
  shows "\<exists>s'. rx_acquire s = Inl s' \<and> pool_free s' = []
           \<and> mset (incoming_blocks s') = mset (incoming_blocks s) + mset (pool_free s)
           \<and> block_data s' = block_data s \<and> incoming_count s' = incoming_count s
           \<and> ready_left s' = ready_left s \<and> ready_right s' = ready_right s
           \<and> ready_left2 s' = ready_left2 s \<and> ready_right2 s' = ready_right2 s
           \<and> usb_audio_overrun_count s' = usb_audio_overrun_count s
           \<and> receive_flag s' = receive_flag s"
proof -
  consider "pool_free s = []" | a where "pool_free s = [a]" | a b where "pool_free s = [a, b]"
    | a b c where "pool_free s = [a, b, c]"
    using short_list_cases [of "pool_free s"] assms by force
  then show ?thesis
  proof cases
    case 1
    then show ?thesis using assms
      by (cases "incoming_left s"; cases "incoming_right s"; cases "incoming_left2 s";
          cases "incoming_right2 s")
         (simp_all add: rx_acquire_def rx_alloc_left_def rx_alloc_right_def rx_alloc_left2_def
            rx_alloc_right2_def allocate_def incoming_blocks_def opt_list_def)
  next
    case 2
    then show ?thesis using assms
      by (cases "incoming_left s"; cases "incoming_right s"; cases "incoming_left2 s";
          cases "incoming_right2 s")
         (simp_all add: rx_acquire_def rx_alloc_left_def rx_alloc_right_def rx_alloc_left2_def
            rx_alloc_right2_def allocate_def incoming_blocks_def opt_list_def)
  next
    case 3
    then show ?thesis using assms
      by (cases "incoming_left s"; cases "incoming_right s"; cases "incoming_left2 s";
          cases "incoming_right2 s")
         (simp_all add: rx_acquire_def rx_alloc_left_def rx_alloc_right_def rx_alloc_left2_def
            rx_alloc_right2_def allocate_def incoming_blocks_def opt_list_def)
  next
    case 4
    then show ?thesis using assms
      by (cases "incoming_left s"; cases "incoming_right s"; cases "incoming_left2 s";
          cases "incoming_right2 s")
         (simp_all add: rx_acquire_def rx_alloc_left_def rx_alloc_right_def rx_alloc_left2_def
            rx_alloc_right2_def allocate_def incoming_blocks_def opt_list_def)
  qed
qed

lemma rx_send_feedback:
  "rx_send l1 r1 l2 r2 s = Inr (a, b, c, d, s') \<Longrightarrow> feedback_accumulator s' = feedback_accumulator s"
  "rx_send l1 r1 l2 r2 s = Inl s' \<Longrightarrow> feedback_accumulator s' = feedback_accumulator s"
  by (auto simp: rx_send_def rx_drop_incoming_def Let_def split: prod.splits option.splits)

lemma rx_loop_feedback:
  "feedback_accumulator (rx_loop rx data len cnt l1 r1 l2 r2 s) = feedback_accumulator s"
proof (induction rx data len cnt l1 r1 l2 r2 s rule: rx_loop.induct)
  case (1 rx data len cnt left1 right1 left2 right2 s)
  show ?case
    by (subst rx_loop.simps)
       (auto simp: Let_def 1 rx_send_feedback split: sum.splits prod.splits)
qed

lemma rx_acquire_feedback:
  "rx_acquire s = Inr (a, b, c, d, s') \<Longrightarrow> feedback_accumulator s' = feedback_accumulator s"
  "rx_acquire s = Inl s' \<Longrightarrow> feedback_accumulator s' = feedback_accumulator s"
  by (auto simp: rx_acquire_def rx_alloc_left_def rx_alloc_right_def rx_alloc_left2_def
        rx_alloc_right2_def split: sum.splits prod.splits option.splits)

lemma usb_audio_receive_callback_feedback:
  "feedback_accumulator (usb_audio_receive_callback rx len s) = feedback_accumulator s"
  by (auto simp: usb_audio_receive_callback_def Let_def rx_loop_feedback
        dest: rx_acquire_feedback split: sum.splits prod.splits)

lemma rx_packets_feedback:
  "feedback_accumulator (rx_packets ps s) = feedback_accumulator s"
  by (induction ps arbitrary: s) (simp_all add: usb_audio_receive_callback_feedback)

lemma transmit_release_feedback:
  "feedback_accumulator (transmit_release blk c s) = feedback_accumulator s"
  by (simp add: transmit_release_def split: option.splits)

lemma AudioInputUSB_update_feedback:
  assumes "underrun_signal s"
  shows "feedback_accumulator (AudioInputUSB_update s)
           = feedback_accumulator s
             + of_int (int (AUDIO_BLOCK_SAMPLES div 2) - int (incoming_count s)) + 3500"
  using assms
  by (auto simp: AudioInputUSB_update_def underrun_signal_def Let_def transmit_release_feedback)

lemma AudioInputUSB_update_feedback_nat:
  assumes "underrun_signal s" and "incoming_count s \<le> AUDIO_BLOCK_SAMPLES"
  shows "feedback_accumulator (AudioInputUSB_update s)
           = feedback_accumulator s + of_nat (3564 - incoming_count s)"
proof -
  have "int (AUDIO_BLOCK_SAMPLES div 2) - int (incoming_count s) + 3500
          = int (3564 - incoming_count s)"
    using assms(2) by (simp add: AUDIO_BLOCK_SAMPLES_def)
  then have "(of_int (int (AUDIO_BLOCK_SAMPLES div 2) - int (incoming_count s)) + 3500 :: 32 word)
          = of_nat (3564 - incoming_count s)"
    by (metis of_int_add of_int_numeral of_int_of_nat_eq)
  then show ?thesis
    by (simp add: AudioInputUSB_update_feedback [OF assms(1)] add.assoc)
qed

lemma unat_add_of_nat:
  assumes "unat (w :: 32 word) + k < 2 ^ 32"
  shows "unat (w + of_nat k) = unat w + k"
proof -
  have "unat (w + of_nat k) = (unat w + k mod 2 ^ 32) mod 2 ^ 32"
    by (simp add: unat_word_ariths unat_of_nat)
  then show ?thesis using assms by simp
qed

lemma feedback_cycles:
  assumes "underrun_cycles pss s"
    and "\<forall>c \<in> set (cycle_counts pss s). c \<le> AUDIO_BLOCK_SAMPLES"
    and "unat (feedback_accumulator s) + 3564 * length pss < 2 ^ 32"
  shows "unat (feedback_accumulator (rx_cycles pss s))
           = unat (feedback_accumulator s) + sum_list (map (\<lambda>c. 3564 - c) (cycle_counts pss s))"
  using assms
proof (induction pss arbitrary: s)
  case Nil
  then show ?case by simp
next
  case (Cons ps pss)
  let ?t = "rx_packets ps s"
  let ?u = "AudioInputUSB_update ?t"
  have sig: "underrun_signal ?t" and rest: "underrun_cycles pss ?u"
    using Cons.prems(1) by simp_all
  have c: "incoming_count ?t \<le> AUDIO_BLOCK_SAMPLES"
    and cs: "\<forall>c \<in> set (cycle_counts pss ?u). c \<le> AUDIO_BLOCK_SAMPLES"
    using Cons.prems(2) by simp_all
  have fa: "feedback_accumulator ?u = feedback_accumulator s + of_nat (3564 - incoming_count ?t)"
    using AudioInputUSB_update_feedback_nat [OF sig c] by (simp add: rx_packets_feedback)
  have small: "unat (feedback_accumulator s) + (3564 - incoming_count ?t) < 2 ^ 32"
    using Cons.prems(3) by simp
  have u: "unat (feedback_accumulator ?u)
             = unat (feedback_accumulator s) + (3564 - incoming_count ?t)"
    using fa unat_add_of_nat [OF small] by simp
  have "unat (feedback_accumulator ?u) + 3564 * length pss < 2 ^ 32"
    using u Cons.prems(3) by simp
  from Cons.IH [OF rest cs this] u show ?case by simp
qed

lemma sum_list_bounds:
  assumes "\<forall>c \<in> set cs. c \<le> (128::nat)"
  shows "3436 * length cs \<le> sum_list (map (\<lambda>c. 3564 - c) cs)"
    and "sum_list (map (\<lambda>c. 3564 - c) cs) \<le> 3564 * length cs"
  using assms by (induction cs) auto

lemma cycle_counts_length: "length (cycle_counts pss s) = length pss"
  by (induction pss arbitrary: s) simp_all

lemma rx_replace_fails:
  assumes "incoming_left s = Some l1" and "incoming_right s = Some r1"
    and "incoming_left2 s = Some l2" and "incoming_right2 s = Some r2"
    and "\<not> ready_occupied s" and "incoming_count s < AUDIO_BLOCK_SAMPLES"
    and "AUDIO_BLOCK_SAMPLES \<le> incoming_count s + len div 8"
    and "length (pool_free s) < 4"
  shows "usb_audio_receive_callback rx len s
           = s\<lparr>receive_flag := 1,
               block_data :=
                 copy_to_buffers_4ch (AUDIO_BLOCK_SAMPLES - incoming_count s) rx 0 l1 r1 l2 r2
                   (incoming_count s) (block_data s),
               ready_left := Some l1, ready_right := Some r1,
               ready_left2 := Some l2, ready_right2 := Some r2,
               pool_free := rev (pool_free s),
               incoming_left := None, incoming_right := None,
               incoming_left2 := None, incoming_right2 := None,
               incoming_count := 0\<rparr>"
proof -
  let ?t = "s\<lparr>receive_flag := 1\<rparr>"
  let ?u = "?t\<lparr>block_data :=
               copy_to_buffers_4ch (AUDIO_BLOCK_SAMPLES - incoming_count s) rx 0 l1 r1 l2 r2
                 (incoming_count s) (block_data ?t)\<rparr>"
  have acq: "rx_acquire ?t = Inr (l1, r1, l2, r2, ?t)"
    using assms by (intro rx_acquire_all_Some) simp_all
  have occ: "\<not> ready_occupied ?t" using assms(5) by (simp add: ready_occupied_def)
  have cb: "usb_audio_receive_callback rx len s
              = rx_loop rx 0 (len div 8) (incoming_count s) l1 r1 l2 r2 ?t"
    by (simp add: usb_audio_receive_callback_def Let_def acq)
  have p: "length (pool_free ?u) < 4" using assms(8) by simp
  show ?thesis
    using cb rx_loop_publish [OF assms(6) assms(7) occ, of rx 0 l1 r1 l2 r2]
      rx_send_fails [OF p, of l1 r1 l2 r2]
    by simp
qed

lemma rx_loop_recover:
  assumes "0 < len" and "cnt = AUDIO_BLOCK_SAMPLES" and "\<not> ready_occupied s"
  shows "rx_loop rx data len cnt left1 right1 left2 right2 s
           = (case rx_send left1 right1 left2 right2 s of
                Inl s \<Rightarrow> s
              | Inr (left1', right1', left2', right2', s) \<Rightarrow>
                  rx_loop rx data len 0 left1' right1' left2' right2' s)"
  using assms
  by (subst rx_loop.simps)
     (simp add: u32_sub_def AUDIO_BLOCK_SAMPLES_def Let_def split: sum.splits prod.splits)

lemma rx_recover_fails:
  assumes "incoming_left s = Some l1" and "incoming_right s = Some r1"
    and "incoming_left2 s = Some l2" and "incoming_right2 s = Some r2"
    and "\<not> ready_occupied s" and "incoming_count s = AUDIO_BLOCK_SAMPLES"
    and "0 < len div 8"
    and "length (pool_free s) < 4"
  shows "usb_audio_receive_callback rx len s
           = s\<lparr>receive_flag := 1,
               ready_left := Some l1, ready_right := Some r1,
               ready_left2 := Some l2, ready_right2 := Some r2,
               pool_free := rev (pool_free s),
               incoming_left := None, incoming_right := None,
               incoming_left2 := None, incoming_right2 := None,
               incoming_count := 0\<rparr>"
proof -
  let ?t = "s\<lparr>receive_flag := 1\<rparr>"
  have acq: "rx_acquire ?t = Inr (l1, r1, l2, r2, ?t)"
    using assms by (intro rx_acquire_all_Some) simp_all
  have occ: "\<not> ready_occupied ?t" using assms(5) by (simp add: ready_occupied_def)
  have cb: "usb_audio_receive_callback rx len s
              = rx_loop rx 0 (len div 8) (incoming_count s) l1 r1 l2 r2 ?t"
    by (simp add: usb_audio_receive_callback_def Let_def acq)
  have p: "length (pool_free ?t) < 4" using assms(8) by simp
  show ?thesis
    using cb rx_loop_recover [OF assms(7) assms(6) occ, of rx 0 l1 r1 l2 r2]
      rx_send_fails [OF p, of l1 r1 l2 r2]
    by simp
qed

lemma rx_entry_fails:
  assumes "length (incoming_blocks s) + length (pool_free s) < 4"
  shows "pool_free (usb_audio_receive_callback rx len s) = []
       \<and> mset (incoming_blocks (usb_audio_receive_callback rx len s))
           = mset (incoming_blocks s) + mset (pool_free s)
       \<and> block_data (usb_audio_receive_callback rx len s) = block_data s
       \<and> incoming_count (usb_audio_receive_callback rx len s) = incoming_count s
       \<and> ready_left (usb_audio_receive_callback rx len s) = ready_left s
       \<and> ready_right (usb_audio_receive_callback rx len s) = ready_right s
       \<and> ready_left2 (usb_audio_receive_callback rx len s) = ready_left2 s
       \<and> ready_right2 (usb_audio_receive_callback rx len s) = ready_right2 s
       \<and> usb_audio_overrun_count (usb_audio_receive_callback rx len s)
           = usb_audio_overrun_count s"
proof -
  let ?t = "s\<lparr>receive_flag := 1\<rparr>"
  have "length (incoming_blocks ?t) + length (pool_free ?t) < 4"
    using assms by (simp add: incoming_blocks_def)
  from rx_acquire_fails [OF this]
  obtain s' where s': "rx_acquire ?t = Inl s'" "pool_free s' = []"
    "mset (incoming_blocks s') = mset (incoming_blocks ?t) + mset (pool_free ?t)"
    "block_data s' = block_data ?t" "incoming_count s' = incoming_count ?t"
    "ready_left s' = ready_left ?t" "ready_right s' = ready_right ?t"
    "ready_left2 s' = ready_left2 ?t" "ready_right2 s' = ready_right2 ?t"
    "usb_audio_overrun_count s' = usb_audio_overrun_count ?t"
    by blast
  have "usb_audio_receive_callback rx len s = s'"
    by (simp add: usb_audio_receive_callback_def Let_def s'(1))
  then show ?thesis using s' by (simp add: incoming_blocks_def)
qed

lemmas rx_eval =
  usb_audio_receive_callback_def AudioInputUSB_begin_def usb_audio_configure_def usb0_def
  rx_acquire_def rx_alloc_left_def rx_alloc_right_def rx_alloc_left2_def rx_alloc_right2_def
  allocate_def release_def rx_loop_publish rx_loop_zero rx_loop_short rx_loop_overrun rx_loop_full
  rx_send_def rx_drop_incoming_def AUDIO_BLOCK_SAMPLES_def ready_occupied_def Let_def
  AudioInputUSB_update_def transmit_release_def underrun_signal_def

lemma rx_published_fields:
  "incoming_left rx_published = Some 5" "incoming_right rx_published = Some 6"
  "incoming_left2 rx_published = Some 7" "incoming_right2 rx_published = Some 8"
  "ready_left rx_published = Some 1" "ready_right rx_published = Some 2"
  "ready_left2 rx_published = Some 3" "ready_right2 rx_published = Some 4"
  "incoming_count rx_published = 0" "usb_audio_overrun_count rx_published = 0"
  "pool_free rx_published = []"
  by (simp_all add: rx_published_def rx_begun_def rx_eval)

subsection \<open>The claims about the USB receive path\<close>

text \<open>
  C2 (overrun policy and counting), as the claim states it, fails. After \<open>begin\<close> a
  first packet of 128 samples fills the blocks 1 to 4, which are published to the ready
  mailbox. The mailbox is not drained. A second packet of 128 samples fills the next
  set, the blocks 5 to 8, exactly. The claim wants the new set in the mailbox and the
  overrun counter at 1; the code leaves the first set in the mailbox, keeps the new set
  in the incoming slots with \<open>incoming_count = 128\<close>, and leaves the counter at 0.
\<close>

theorem rx_overrun_counterexample:
  "ready_left (rx_packets [(rx_silence, 1024), (rx_silence, 1024)] rx_begun) = Some 1
   \<and> ready_left (rx_packets [(rx_silence, 1024), (rx_silence, 1024)] rx_begun) \<noteq> Some 5
   \<and> incoming_left (rx_packets [(rx_silence, 1024), (rx_silence, 1024)] rx_begun) = Some 5
   \<and> incoming_count (rx_packets [(rx_silence, 1024), (rx_silence, 1024)] rx_begun) = 128
   \<and> usb_audio_overrun_count (rx_packets [(rx_silence, 1024), (rx_silence, 1024)] rx_begun) = 0
   \<and> usb_audio_overrun_count (rx_packets [(rx_silence, 1024), (rx_silence, 1024)] rx_begun) \<noteq> 1"
proof -
  have "rx_packets [(rx_silence, 1024), (rx_silence, 1024)] rx_begun
          = usb_audio_receive_callback rx_silence 1024 rx_published"
    by (simp add: rx_published_def)
  moreover have "ready_occupied rx_published"
    by (simp add: ready_occupied_def rx_published_fields)
  ultimately show ?thesis
    using rx_overrun_step [of rx_published 5 6 7 8 1024 rx_silence]
    by (simp add: rx_published_fields AUDIO_BLOCK_SAMPLES_def)
qed

text \<open>
  C2, amended. When the incoming set (all four blocks present, \<open>incoming_count\<close> below
  128) is filled by a packet while the ready mailbox is occupied, the callback leaves
  the ready mailbox as it is (the unread set stays, the new data is held back), keeps
  the filled set in the incoming slots with \<open>incoming_count = 128\<close>, takes nothing from
  the pool, and increments the overrun counter by exactly 1 when the packet holds more
  samples than fitted into the set and not at all when it fills the set exactly.
  As long as the mailbox is not drained, every further sequence of packets leaves the
  mailbox, the block contents, \<open>incoming_count\<close> and the overrun counter unchanged: the
  mailbox holds the set that was completed first.
\<close>

theorem rx_overrun_keeps_first:
  assumes "incoming_left s = Some l1" and "incoming_right s = Some r1"
    and "incoming_left2 s = Some l2" and "incoming_right2 s = Some r2"
    and "ready_occupied s" and "incoming_count s < AUDIO_BLOCK_SAMPLES"
    and "AUDIO_BLOCK_SAMPLES \<le> incoming_count s + len div 8"
  shows "ready_left (usb_audio_receive_callback rx len s) = ready_left s
       \<and> ready_right (usb_audio_receive_callback rx len s) = ready_right s
       \<and> ready_left2 (usb_audio_receive_callback rx len s) = ready_left2 s
       \<and> ready_right2 (usb_audio_receive_callback rx len s) = ready_right2 s
       \<and> incoming_left (usb_audio_receive_callback rx len s) = Some l1
       \<and> incoming_right (usb_audio_receive_callback rx len s) = Some r1
       \<and> incoming_left2 (usb_audio_receive_callback rx len s) = Some l2
       \<and> incoming_right2 (usb_audio_receive_callback rx len s) = Some r2
       \<and> incoming_count (usb_audio_receive_callback rx len s) = AUDIO_BLOCK_SAMPLES
       \<and> pool_free (usb_audio_receive_callback rx len s) = pool_free s
       \<and> usb_audio_overrun_count (usb_audio_receive_callback rx len s)
           = (if AUDIO_BLOCK_SAMPLES < incoming_count s + len div 8
              then usb_audio_overrun_count s + 1 else usb_audio_overrun_count s)
       \<and> (\<forall>ps.
             ready_left (rx_packets ps (usb_audio_receive_callback rx len s)) = ready_left s
           \<and> ready_right (rx_packets ps (usb_audio_receive_callback rx len s)) = ready_right s
           \<and> ready_left2 (rx_packets ps (usb_audio_receive_callback rx len s)) = ready_left2 s
           \<and> ready_right2 (rx_packets ps (usb_audio_receive_callback rx len s)) = ready_right2 s
           \<and> block_data (rx_packets ps (usb_audio_receive_callback rx len s))
               = block_data (usb_audio_receive_callback rx len s)
           \<and> incoming_count (rx_packets ps (usb_audio_receive_callback rx len s))
               = AUDIO_BLOCK_SAMPLES
           \<and> usb_audio_overrun_count (rx_packets ps (usb_audio_receive_callback rx len s))
               = usb_audio_overrun_count (usb_audio_receive_callback rx len s))"
proof -
  let ?s' = "usb_audio_receive_callback rx len s"
  note step = rx_overrun_step [OF assms, of rx]
  have a: "incoming_left ?s' = Some l1" "incoming_right ?s' = Some r1"
    "incoming_left2 ?s' = Some l2" "incoming_right2 ?s' = Some r2"
    using assms(1-4) by (simp_all add: step)
  have b: "ready_occupied ?s'" using assms(5) by (simp add: step ready_occupied_def)
  have c: "incoming_count ?s' = AUDIO_BLOCK_SAMPLES" by (simp add: step)
  have later: "rx_packets ps ?s' = (if ps = [] then ?s' else ?s'\<lparr>receive_flag := 1\<rparr>)" for ps
    by (rule rx_packets_full_idle [OF a b c])
  have first: "ready_left ?s' = ready_left s" "ready_right ?s' = ready_right s"
    "ready_left2 ?s' = ready_left2 s" "ready_right2 ?s' = ready_right2 s"
    "pool_free ?s' = pool_free s"
    "usb_audio_overrun_count ?s'
       = (if AUDIO_BLOCK_SAMPLES < incoming_count s + len div 8
          then usb_audio_overrun_count s + 1 else usb_audio_overrun_count s)"
    by (simp_all add: step)
  show ?thesis
    using a c first by (simp add: later)
qed

theorem rx_overrun_keeps_first_witness:
  "incoming_left rx_published = Some 5 \<and> incoming_right rx_published = Some 6
   \<and> incoming_left2 rx_published = Some 7 \<and> incoming_right2 rx_published = Some 8
   \<and> ready_occupied rx_published \<and> incoming_count rx_published < AUDIO_BLOCK_SAMPLES
   \<and> AUDIO_BLOCK_SAMPLES \<le> incoming_count rx_published + 1032 div 8
   \<and> ready_left (usb_audio_receive_callback rx_silence 1032 rx_published) = Some 1
   \<and> incoming_left (usb_audio_receive_callback rx_silence 1032 rx_published) = Some 5
   \<and> incoming_count (usb_audio_receive_callback rx_silence 1032 rx_published) = 128
   \<and> usb_audio_overrun_count (usb_audio_receive_callback rx_silence 1032 rx_published) = 1
   \<and> ready_left (rx_packets [(rx_silence, 352)]
                     (usb_audio_receive_callback rx_silence 1032 rx_published)) = Some 1
   \<and> usb_audio_overrun_count (rx_packets [(rx_silence, 352)]
                     (usb_audio_receive_callback rx_silence 1032 rx_published)) = 1"
proof -
  have h: "incoming_left rx_published = Some 5" "incoming_right rx_published = Some 6"
    "incoming_left2 rx_published = Some 7" "incoming_right2 rx_published = Some 8"
    "ready_occupied rx_published" "incoming_count rx_published < AUDIO_BLOCK_SAMPLES"
    "AUDIO_BLOCK_SAMPLES \<le> incoming_count rx_published + 1032 div 8"
    by (simp_all add: rx_published_fields ready_occupied_def AUDIO_BLOCK_SAMPLES_def)
  note t = rx_overrun_keeps_first [OF h, of rx_silence]
  have "usb_audio_overrun_count (usb_audio_receive_callback rx_silence 1032 rx_published) = 1"
    using t by (simp add: rx_published_fields AUDIO_BLOCK_SAMPLES_def)
  then show ?thesis
    using h t by (simp add: rx_published_fields AUDIO_BLOCK_SAMPLES_def del: rx_packets.simps)
qed

text \<open>
  C6 (partial-allocation rollback), as the claim states it, fails for the allocation
  chain at the entry of the callback. After \<open>begin\<close> with one free block (block 7), a
  packet arrives: \<open>incoming_left\<close> takes block 7, the allocation for \<open>incoming_right\<close>
  fails and the callback returns. Block 7 is not released (the pool stays empty), and
  the slot set is left half-populated.
\<close>

theorem rx_partial_allocation_counterexample:
  "incoming_left (usb_audio_receive_callback rx_silence 352 (AudioInputUSB_begin (usb0 [7])))
     = Some 7
   \<and> incoming_right (usb_audio_receive_callback rx_silence 352 (AudioInputUSB_begin (usb0 [7])))
     = None
   \<and> pool_free (usb_audio_receive_callback rx_silence 352 (AudioInputUSB_begin (usb0 [7]))) = []"
  by (simp add: rx_eval)

text \<open>
  C6, amended. (1) When the chain that allocates the replacement blocks after a
  publication fails (fewer than four free blocks), every block taken in that chain is
  released again (the free list holds the same blocks as before), all four incoming
  slots are null, \<open>incoming_count\<close> is 0, and the filled set is in the ready mailbox.
  This holds on both routes into the chain: the packet completes the set
  (\<open>incoming_count < AUDIO_BLOCK_SAMPLES\<close>), or the set was complete already
  (\<open>incoming_count = AUDIO_BLOCK_SAMPLES\<close>, left by an overrun) and the mailbox has been
  drained since.
  (2) When the chain at the entry of the callback fails (the free blocks do not
  suffice for the null incoming slots), the callback returns without copying a sample
  and without touching \<open>incoming_count\<close>, the mailbox or the overrun counter; the blocks
  it took stay in their incoming slots, so that the blocks in the incoming slots
  afterwards are those held before together with all blocks that were free: no block
  is lost, and none is released.
\<close>

theorem rx_partial_allocation:
  "(incoming_left s = Some l1 \<and> incoming_right s = Some r1
      \<and> incoming_left2 s = Some l2 \<and> incoming_right2 s = Some r2
      \<and> \<not> ready_occupied s \<and> incoming_count s \<le> AUDIO_BLOCK_SAMPLES
      \<and> 0 < len div 8 \<and> AUDIO_BLOCK_SAMPLES \<le> incoming_count s + len div 8
      \<and> length (pool_free s) < 4
    \<longrightarrow> incoming_left (usb_audio_receive_callback rx len s) = None
      \<and> incoming_right (usb_audio_receive_callback rx len s) = None
      \<and> incoming_left2 (usb_audio_receive_callback rx len s) = None
      \<and> incoming_right2 (usb_audio_receive_callback rx len s) = None
      \<and> incoming_count (usb_audio_receive_callback rx len s) = 0
      \<and> mset (pool_free (usb_audio_receive_callback rx len s)) = mset (pool_free s)
      \<and> ready_left (usb_audio_receive_callback rx len s) = Some l1
      \<and> ready_right (usb_audio_receive_callback rx len s) = Some r1
      \<and> ready_left2 (usb_audio_receive_callback rx len s) = Some l2
      \<and> ready_right2 (usb_audio_receive_callback rx len s) = Some r2)
   \<and> (length (incoming_blocks t) + length (pool_free t) < 4
    \<longrightarrow> pool_free (usb_audio_receive_callback rx' len' t) = []
      \<and> mset (incoming_blocks (usb_audio_receive_callback rx' len' t))
          = mset (incoming_blocks t) + mset (pool_free t)
      \<and> block_data (usb_audio_receive_callback rx' len' t) = block_data t
      \<and> incoming_count (usb_audio_receive_callback rx' len' t) = incoming_count t
      \<and> ready_left (usb_audio_receive_callback rx' len' t) = ready_left t
      \<and> ready_right (usb_audio_receive_callback rx' len' t) = ready_right t
      \<and> ready_left2 (usb_audio_receive_callback rx' len' t) = ready_left2 t
      \<and> ready_right2 (usb_audio_receive_callback rx' len' t) = ready_right2 t
      \<and> usb_audio_overrun_count (usb_audio_receive_callback rx' len' t)
          = usb_audio_overrun_count t)"
proof (intro conjI impI)
  assume a: "incoming_left s = Some l1 \<and> incoming_right s = Some r1
      \<and> incoming_left2 s = Some l2 \<and> incoming_right2 s = Some r2
      \<and> \<not> ready_occupied s \<and> incoming_count s \<le> AUDIO_BLOCK_SAMPLES
      \<and> 0 < len div 8 \<and> AUDIO_BLOCK_SAMPLES \<le> incoming_count s + len div 8
      \<and> length (pool_free s) < 4"
  have "\<exists>d. usb_audio_receive_callback rx len s
           = s\<lparr>receive_flag := 1, block_data := d,
               ready_left := Some l1, ready_right := Some r1,
               ready_left2 := Some l2, ready_right2 := Some r2,
               pool_free := rev (pool_free s),
               incoming_left := None, incoming_right := None,
               incoming_left2 := None, incoming_right2 := None,
               incoming_count := 0\<rparr>"
  proof (cases "incoming_count s < AUDIO_BLOCK_SAMPLES")
    case True
    have "usb_audio_receive_callback rx len s
           = s\<lparr>receive_flag := 1,
               block_data :=
                 copy_to_buffers_4ch (AUDIO_BLOCK_SAMPLES - incoming_count s) rx 0 l1 r1 l2 r2
                   (incoming_count s) (block_data s),
               ready_left := Some l1, ready_right := Some r1,
               ready_left2 := Some l2, ready_right2 := Some r2,
               pool_free := rev (pool_free s),
               incoming_left := None, incoming_right := None,
               incoming_left2 := None, incoming_right2 := None,
               incoming_count := 0\<rparr>"
      using a True by (intro rx_replace_fails) simp_all
    then show ?thesis by blast
  next
    case False
    with a have c: "incoming_count s = AUDIO_BLOCK_SAMPLES" by simp
    have "usb_audio_receive_callback rx len s
           = s\<lparr>receive_flag := 1,
               ready_left := Some l1, ready_right := Some r1,
               ready_left2 := Some l2, ready_right2 := Some r2,
               pool_free := rev (pool_free s),
               incoming_left := None, incoming_right := None,
               incoming_left2 := None, incoming_right2 := None,
               incoming_count := 0\<rparr>"
      using a c by (intro rx_recover_fails) simp_all
    then have "usb_audio_receive_callback rx len s
           = s\<lparr>receive_flag := 1, block_data := block_data s,
               ready_left := Some l1, ready_right := Some r1,
               ready_left2 := Some l2, ready_right2 := Some r2,
               pool_free := rev (pool_free s),
               incoming_left := None, incoming_right := None,
               incoming_left2 := None, incoming_right2 := None,
               incoming_count := 0\<rparr>"
      by simp
    then show ?thesis by blast
  qed
  then obtain d where eq: "usb_audio_receive_callback rx len s
           = s\<lparr>receive_flag := 1, block_data := d,
               ready_left := Some l1, ready_right := Some r1,
               ready_left2 := Some l2, ready_right2 := Some r2,
               pool_free := rev (pool_free s),
               incoming_left := None, incoming_right := None,
               incoming_left2 := None, incoming_right2 := None,
               incoming_count := 0\<rparr>"
    by blast
  show "incoming_left (usb_audio_receive_callback rx len s) = None"
    "incoming_right (usb_audio_receive_callback rx len s) = None"
    "incoming_left2 (usb_audio_receive_callback rx len s) = None"
    "incoming_right2 (usb_audio_receive_callback rx len s) = None"
    "incoming_count (usb_audio_receive_callback rx len s) = 0"
    "mset (pool_free (usb_audio_receive_callback rx len s)) = mset (pool_free s)"
    "ready_left (usb_audio_receive_callback rx len s) = Some l1"
    "ready_right (usb_audio_receive_callback rx len s) = Some r1"
    "ready_left2 (usb_audio_receive_callback rx len s) = Some l2"
    "ready_right2 (usb_audio_receive_callback rx len s) = Some r2"
    by (simp_all add: eq)
next
  assume b: "length (incoming_blocks t) + length (pool_free t) < 4"
  note r = rx_entry_fails [OF b, of rx' len']
  show "pool_free (usb_audio_receive_callback rx' len' t) = []"
    "mset (incoming_blocks (usb_audio_receive_callback rx' len' t))
          = mset (incoming_blocks t) + mset (pool_free t)"
    "block_data (usb_audio_receive_callback rx' len' t) = block_data t"
    "incoming_count (usb_audio_receive_callback rx' len' t) = incoming_count t"
    "ready_left (usb_audio_receive_callback rx' len' t) = ready_left t"
    "ready_right (usb_audio_receive_callback rx' len' t) = ready_right t"
    "ready_left2 (usb_audio_receive_callback rx' len' t) = ready_left2 t"
    "ready_right2 (usb_audio_receive_callback rx' len' t) = ready_right2 t"
    "usb_audio_overrun_count (usb_audio_receive_callback rx' len' t)
          = usb_audio_overrun_count t"
    using r by simp_all
qed

lemma rx_short_pool_fields:
  "incoming_left rx_short_pool = Some 1" "incoming_right rx_short_pool = Some 2"
  "incoming_left2 rx_short_pool = Some 3" "incoming_right2 rx_short_pool = Some 4"
  "ready_left rx_short_pool = None" "ready_right rx_short_pool = None"
  "ready_left2 rx_short_pool = None" "ready_right2 rx_short_pool = None"
  "incoming_count rx_short_pool = 100" "pool_free rx_short_pool = [9, 10]"
  by (simp_all add: rx_short_pool_def rx_eval)

theorem rx_partial_allocation_witness:
  "incoming_left rx_short_pool = Some 1 \<and> incoming_right rx_short_pool = Some 2
   \<and> incoming_left2 rx_short_pool = Some 3 \<and> incoming_right2 rx_short_pool = Some 4
   \<and> \<not> ready_occupied rx_short_pool \<and> incoming_count rx_short_pool \<le> AUDIO_BLOCK_SAMPLES
   \<and> (0::nat) < 352 div 8 \<and> AUDIO_BLOCK_SAMPLES \<le> incoming_count rx_short_pool + 352 div 8
   \<and> length (pool_free rx_short_pool) < 4
   \<and> incoming_left (usb_audio_receive_callback rx_silence 352 rx_short_pool) = None
   \<and> incoming_right2 (usb_audio_receive_callback rx_silence 352 rx_short_pool) = None
   \<and> incoming_count (usb_audio_receive_callback rx_silence 352 rx_short_pool) = 0
   \<and> mset (pool_free (usb_audio_receive_callback rx_silence 352 rx_short_pool)) = {#9, 10#}
   \<and> ready_left (usb_audio_receive_callback rx_silence 352 rx_short_pool) = Some 1
   \<and> length (incoming_blocks (AudioInputUSB_begin (usb0 [7])))
       + length (pool_free (AudioInputUSB_begin (usb0 [7]))) < 4
   \<and> pool_free (usb_audio_receive_callback rx_silence 352 (AudioInputUSB_begin (usb0 [7]))) = []
   \<and> mset (incoming_blocks
         (usb_audio_receive_callback rx_silence 352 (AudioInputUSB_begin (usb0 [7])))) = {#7#}
   \<and> incoming_count (usb_audio_receive_callback rx_silence 352 (AudioInputUSB_begin (usb0 [7])))
       = 0
   \<and> incoming_count (rx_short_pool\<lparr>incoming_count := AUDIO_BLOCK_SAMPLES\<rparr>)
       = AUDIO_BLOCK_SAMPLES
   \<and> incoming_left (usb_audio_receive_callback rx_silence 352
         (rx_short_pool\<lparr>incoming_count := AUDIO_BLOCK_SAMPLES\<rparr>)) = None
   \<and> incoming_count (usb_audio_receive_callback rx_silence 352
         (rx_short_pool\<lparr>incoming_count := AUDIO_BLOCK_SAMPLES\<rparr>)) = 0
   \<and> mset (pool_free (usb_audio_receive_callback rx_silence 352
         (rx_short_pool\<lparr>incoming_count := AUDIO_BLOCK_SAMPLES\<rparr>))) = {#9, 10#}
   \<and> ready_right2 (usb_audio_receive_callback rx_silence 352
         (rx_short_pool\<lparr>incoming_count := AUDIO_BLOCK_SAMPLES\<rparr>)) = Some 4"
proof -
  let ?r = "rx_short_pool\<lparr>incoming_count := AUDIO_BLOCK_SAMPLES\<rparr>"
  have h3: "incoming_left ?r = Some 1 \<and> incoming_right ?r = Some 2
      \<and> incoming_left2 ?r = Some 3 \<and> incoming_right2 ?r = Some 4
      \<and> \<not> ready_occupied ?r \<and> incoming_count ?r \<le> AUDIO_BLOCK_SAMPLES
      \<and> (0::nat) < 352 div 8 \<and> AUDIO_BLOCK_SAMPLES \<le> incoming_count ?r + 352 div 8
      \<and> length (pool_free ?r) < 4"
    by (simp add: rx_short_pool_fields ready_occupied_def AUDIO_BLOCK_SAMPLES_def)
  note t3 = rx_partial_allocation [of ?r 1 2 3 4 352 rx_silence
      "AudioInputUSB_begin (usb0 [7])" rx_silence 352]
  from t3 h3 have c3: "incoming_left (usb_audio_receive_callback rx_silence 352 ?r) = None
      \<and> incoming_count (usb_audio_receive_callback rx_silence 352 ?r) = 0
      \<and> mset (pool_free (usb_audio_receive_callback rx_silence 352 ?r)) = mset (pool_free ?r)
      \<and> ready_right2 (usb_audio_receive_callback rx_silence 352 ?r) = Some 4"
    by blast
  have v3: "mset (pool_free ?r) = {#9, 10#}" "incoming_count ?r = AUDIO_BLOCK_SAMPLES"
    by (simp_all add: rx_short_pool_fields)
  have h1: "incoming_left rx_short_pool = Some 1 \<and> incoming_right rx_short_pool = Some 2
      \<and> incoming_left2 rx_short_pool = Some 3 \<and> incoming_right2 rx_short_pool = Some 4
      \<and> \<not> ready_occupied rx_short_pool \<and> incoming_count rx_short_pool \<le> AUDIO_BLOCK_SAMPLES
      \<and> (0::nat) < 352 div 8 \<and> AUDIO_BLOCK_SAMPLES \<le> incoming_count rx_short_pool + 352 div 8
      \<and> length (pool_free rx_short_pool) < 4"
    by (simp add: rx_short_pool_fields ready_occupied_def AUDIO_BLOCK_SAMPLES_def)
  have h2: "length (incoming_blocks (AudioInputUSB_begin (usb0 [7])))
       + length (pool_free (AudioInputUSB_begin (usb0 [7]))) < 4"
    by (simp add: incoming_blocks_def opt_list_def AudioInputUSB_begin_def usb0_def)
  have v: "mset (pool_free rx_short_pool) = {#9, 10#}"
    "mset (incoming_blocks (AudioInputUSB_begin (usb0 [7])))
       + mset (pool_free (AudioInputUSB_begin (usb0 [7]))) = {#7#}"
    "incoming_count (AudioInputUSB_begin (usb0 [7])) = 0"
    by (simp_all add: rx_short_pool_fields incoming_blocks_def opt_list_def
          AudioInputUSB_begin_def usb0_def)
  note t = rx_partial_allocation [of rx_short_pool 1 2 3 4 352 rx_silence
      "AudioInputUSB_begin (usb0 [7])" rx_silence 352]
  from t h1 have c1: "incoming_left (usb_audio_receive_callback rx_silence 352 rx_short_pool) = None
      \<and> incoming_right2 (usb_audio_receive_callback rx_silence 352 rx_short_pool) = None
      \<and> incoming_count (usb_audio_receive_callback rx_silence 352 rx_short_pool) = 0
      \<and> mset (pool_free (usb_audio_receive_callback rx_silence 352 rx_short_pool))
          = mset (pool_free rx_short_pool)
      \<and> ready_left (usb_audio_receive_callback rx_silence 352 rx_short_pool) = Some 1"
    by blast
  from t h2 have c2:
    "pool_free (usb_audio_receive_callback rx_silence 352 (AudioInputUSB_begin (usb0 [7]))) = []
     \<and> mset (incoming_blocks
          (usb_audio_receive_callback rx_silence 352 (AudioInputUSB_begin (usb0 [7]))))
        = mset (incoming_blocks (AudioInputUSB_begin (usb0 [7])))
          + mset (pool_free (AudioInputUSB_begin (usb0 [7])))
     \<and> incoming_count (usb_audio_receive_callback rx_silence 352 (AudioInputUSB_begin (usb0 [7])))
        = incoming_count (AudioInputUSB_begin (usb0 [7]))"
    by blast
  show ?thesis
    using h1 h2 c1 c2 v c3 v3 by simp
qed

text \<open>
  C8 (feedback monotonicity), as the claim states it, fails: the increment of a cycle is
  not a fixed delta, and the accumulator is a 32-bit word that wraps around. After
  \<open>begin\<close>, two cycles of one packet of 44 samples each both observe the underrun
  signal; the first update adds 3520 (it reads \<open>incoming_count = 44\<close>), the second adds
  3476 (it reads 88). With the accumulator at 4294966000 one such cycle wraps it around
  to a smaller value.
\<close>

theorem feedback_delta_counterexample:
  "underrun_cycles [[(rx_silence, 352)], [(rx_silence, 352)]]
     (AudioInputUSB_begin (usb_audio_configure (usb0 [1, 2, 3, 4])))
   \<and> feedback_accumulator
       (rx_cycles [[(rx_silence, 352)]]
          (AudioInputUSB_begin (usb_audio_configure (usb0 [1, 2, 3, 4]))))
       = 739875226 + 3520
   \<and> feedback_accumulator
       (rx_cycles [[(rx_silence, 352)], [(rx_silence, 352)]]
          (AudioInputUSB_begin (usb_audio_configure (usb0 [1, 2, 3, 4]))))
       = 739875226 + 3520 + 3476
   \<and> unat (feedback_accumulator
       (rx_cycles [[(rx_silence, 352)]]
          (AudioInputUSB_begin (usb_audio_configure (usb0 [1, 2, 3, 4]))
             \<lparr>feedback_accumulator := 4294966000\<rparr>)))
       < unat (4294966000 :: 32 word)"
  by (simp add: rx_eval)

text \<open>
  C8, amended. Over \<open>K\<close> consecutive update cycles that each observe the underrun
  signal, with every \<open>incoming_count\<close> read at most 128 and as long as the 32-bit
  accumulator does not wrap around (the code has no bound of its own), the accumulator
  grows in every cycle by \<open>3500 + 64 - c\<close>, where \<open>c\<close> is the \<open>incoming_count\<close> that
  the update of the cycle reads: its total increase is the sum of these increments,
  which lies between \<open>3436 * K\<close> and \<open>3564 * K\<close>.
\<close>

theorem feedback_underrun_cycles:
  assumes "underrun_cycles pss s"
    and "\<forall>c \<in> set (cycle_counts pss s). c \<le> AUDIO_BLOCK_SAMPLES"
    and "unat (feedback_accumulator s) + 3564 * length pss < 2 ^ 32"
  shows "unat (feedback_accumulator (rx_cycles pss s))
           = unat (feedback_accumulator s)
             + sum_list (map (\<lambda>c. 3500 + 64 - c) (cycle_counts pss s))
       \<and> unat (feedback_accumulator s) + 3436 * length pss
           \<le> unat (feedback_accumulator (rx_cycles pss s))
       \<and> unat (feedback_accumulator (rx_cycles pss s))
           \<le> unat (feedback_accumulator s) + 3564 * length pss"
proof -
  have b: "\<forall>c \<in> set (cycle_counts pss s). c \<le> (128::nat)"
    using assms(2) by (simp add: AUDIO_BLOCK_SAMPLES_def)
  show ?thesis
    using feedback_cycles [OF assms] sum_list_bounds [OF b]
    by (simp add: cycle_counts_length)
qed

theorem feedback_underrun_cycles_witness:
  "underrun_cycles [[(rx_silence, 352)], [(rx_silence, 352)]] rx_begun
   \<and> cycle_counts [[(rx_silence, 352)], [(rx_silence, 352)]] rx_begun = [44, 88]
   \<and> (44::nat) \<le> AUDIO_BLOCK_SAMPLES \<and> (88::nat) \<le> AUDIO_BLOCK_SAMPLES
   \<and> unat (feedback_accumulator rx_begun)
       + 3564 * length [[(rx_silence, 352)], [(rx_silence, 352 :: nat)]] < 2 ^ 32
   \<and> unat (feedback_accumulator (rx_cycles [[(rx_silence, 352)], [(rx_silence, 352)]] rx_begun))
       = unat (feedback_accumulator rx_begun)
         + sum_list (map (\<lambda>c. 3500 + 64 - c)
             (cycle_counts [[(rx_silence, 352)], [(rx_silence, 352)]] rx_begun))"
proof -
  have cc: "cycle_counts [[(rx_silence, 352)], [(rx_silence, 352)]] rx_begun = [44, 88]"
    by (simp add: rx_begun_def rx_eval)
  have h1: "underrun_cycles [[(rx_silence, 352)], [(rx_silence, 352)]] rx_begun"
    by (simp add: rx_begun_def rx_eval)
  have h2: "\<forall>c \<in> set (cycle_counts [[(rx_silence, 352)], [(rx_silence, 352)]] rx_begun).
         c \<le> AUDIO_BLOCK_SAMPLES"
    unfolding cc by (simp add: AUDIO_BLOCK_SAMPLES_def)
  have h3: "unat (feedback_accumulator rx_begun)
       + 3564 * length [[(rx_silence, 352)], [(rx_silence, 352 :: nat)]] < 2 ^ 32"
    by (simp add: rx_begun_def rx_eval)
  show ?thesis
    using h1 h3 cc feedback_underrun_cycles [OF h1 h2 h3]
    by (simp add: AUDIO_BLOCK_SAMPLES_def del: underrun_cycles.simps rx_cycles.simps)
qed


section \<open>Verification of the receive reassembly\<close>

lemma opt_list_simps [simp]: "opt_list None = []" "opt_list (Some x) = [x]"
  by (simp_all add: opt_list_def)

lemma length_opt_list_le: "length (opt_list x) \<le> 1"
  by (cases x) simp_all

lemma incoming_blocks_4:
  "length (incoming_blocks s) = 4 \<longleftrightarrow>
     (\<exists>l1 r1 l2 r2. incoming_left s = Some l1 \<and> incoming_right s = Some r1
        \<and> incoming_left2 s = Some l2 \<and> incoming_right2 s = Some r2)"
  by (cases "incoming_left s"; cases "incoming_right s"; cases "incoming_left2 s";
      cases "incoming_right2 s") (simp_all add: incoming_blocks_def)

lemma incoming_blocks_0:
  "incoming_blocks s = [] \<longleftrightarrow>
     (incoming_left s = None \<and> incoming_right s = None
        \<and> incoming_left2 s = None \<and> incoming_right2 s = None)"
  by (cases "incoming_left s"; cases "incoming_right s"; cases "incoming_left2 s";
      cases "incoming_right2 s") (simp_all add: incoming_blocks_def)

lemma ready_blocks_4:
  "length (ready_blocks s) = 4 \<longleftrightarrow>
     (\<exists>l1 r1 l2 r2. ready_left s = Some l1 \<and> ready_right s = Some r1
        \<and> ready_left2 s = Some l2 \<and> ready_right2 s = Some r2)"
  by (cases "ready_left s"; cases "ready_right s"; cases "ready_left2 s";
      cases "ready_right2 s") (simp_all add: ready_blocks_def)

lemma ready_blocks_0:
  "ready_blocks s = [] \<longleftrightarrow>
     (ready_left s = None \<and> ready_right s = None
        \<and> ready_left2 s = None \<and> ready_right2 s = None)"
  by (cases "ready_left s"; cases "ready_right s"; cases "ready_left2 s";
      cases "ready_right2 s") (simp_all add: ready_blocks_def)

lemma ready_occupied_blocks: "ready_occupied s \<longleftrightarrow> ready_blocks s \<noteq> []"
  by (simp add: ready_occupied_def ready_blocks_0)

text \<open>What \<open>copy_to_buffers_4ch\<close> leaves in the four destination blocks.\<close>

lemma copy_to_buffers_4ch_left1:
  assumes "left1 \<noteq> right1" and "left1 \<noteq> left2" and "left1 \<noteq> right2"
  shows "copy_to_buffers_4ch n src so left1 right1 left2 right2 c d left1 k
           = (if c \<le> k \<and> k < c + n then ucast (src (so + 2 * (k - c)) AND 0xFFFF)
              else d left1 k)"
  using assms by (induction n) (auto simp: Let_def less_Suc_eq)

lemma copy_to_buffers_4ch_right1:
  assumes "right1 \<noteq> left2" and "right1 \<noteq> right2"
  shows "copy_to_buffers_4ch n src so left1 right1 left2 right2 c d right1 k
           = (if c \<le> k \<and> k < c + n then ucast (drop_bit 16 (src (so + 2 * (k - c))))
              else d right1 k)"
  using assms by (induction n) (auto simp: Let_def less_Suc_eq)

lemma copy_to_buffers_4ch_left2:
  assumes "left2 \<noteq> right2"
  shows "copy_to_buffers_4ch n src so left1 right1 left2 right2 c d left2 k
           = (if c \<le> k \<and> k < c + n then ucast (src (so + 2 * (k - c) + 1) AND 0xFFFF)
              else d left2 k)"
  using assms by (induction n) (auto simp: Let_def less_Suc_eq)

lemma copy_to_buffers_4ch_right2:
  "copy_to_buffers_4ch n src so left1 right1 left2 right2 c d right2 k
           = (if c \<le> k \<and> k < c + n then ucast (drop_bit 16 (src (so + 2 * (k - c) + 1)))
              else d right2 k)"
  by (induction n) (auto simp: Let_def less_Suc_eq)

lemma frame_words_even: "frame_words p (2 * i) = fst (p ! i)"
  and frame_words_odd: "frame_words p (Suc (2 * i)) = snd (p ! i)"
  by (simp_all add: frame_words_def)

lemma copy_channel_nth:
  assumes "distinct [l1, r1, l2, r2]" and "ch < 4"
  shows "copy_to_buffers_4ch n (frame_words p) (2 * q) l1 r1 l2 r2 c d ([l1, r1, l2, r2] ! ch) k
           = (if c \<le> k \<and> k < c + n then channel_of ch (p ! (q + (k - c)))
              else d ([l1, r1, l2, r2] ! ch) k)"
proof -
  have w: "2 * q + 2 * (k - c) = 2 * (q + (k - c))" by simp
  have ne: "l1 \<noteq> r1" "l1 \<noteq> l2" "l1 \<noteq> r2" "r1 \<noteq> l2" "r1 \<noteq> r2" "l2 \<noteq> r2"
    using assms(1) by auto
  consider "ch = 0" | "ch = 1" | "ch = 2" | "ch = 3" using assms(2) by linarith
  then show ?thesis
  proof cases
    case 1
    then show ?thesis
      by (simp add: copy_to_buffers_4ch_left1 [OF ne(1) ne(2) ne(3)] w frame_words_even
            channel_of_def del: mult_2)
  next
    case 2
    then show ?thesis
      by (simp add: copy_to_buffers_4ch_right1 [OF ne(4) ne(5)] w frame_words_even
            channel_of_def)
  next
    case 3
    then show ?thesis
      by (simp add: copy_to_buffers_4ch_left2 [OF ne(6)] w frame_words_odd channel_of_def)
  next
    case 4
    then show ?thesis
      by (simp add: copy_to_buffers_4ch_right2 w frame_words_odd channel_of_def)
  qed
qed

lemma copy_channel_samples:
  assumes "distinct [l1, r1, l2, r2]" and "ch < 4" and "q + n \<le> length p"
  shows "map (copy_to_buffers_4ch n (frame_words p) (2 * q) l1 r1 l2 r2 c d
                ([l1, r1, l2, r2] ! ch)) [0..<c + n]
           = map (d ([l1, r1, l2, r2] ! ch)) [0..<c] @ map (channel_of ch) (take n (drop q p))"
proof (rule nth_equalityI)
  show "length (map (copy_to_buffers_4ch n (frame_words p) (2 * q) l1 r1 l2 r2 c d
                ([l1, r1, l2, r2] ! ch)) [0..<c + n])
          = length (map (d ([l1, r1, l2, r2] ! ch)) [0..<c]
              @ map (channel_of ch) (take n (drop q p)))"
    using assms(3) by simp
next
  fix i
  assume "i < length (map (copy_to_buffers_4ch n (frame_words p) (2 * q) l1 r1 l2 r2 c d
                ([l1, r1, l2, r2] ! ch)) [0..<c + n])"
  then have i: "i < c + n" by simp
  show "map (copy_to_buffers_4ch n (frame_words p) (2 * q) l1 r1 l2 r2 c d
                ([l1, r1, l2, r2] ! ch)) [0..<c + n] ! i
          = (map (d ([l1, r1, l2, r2] ! ch)) [0..<c]
              @ map (channel_of ch) (take n (drop q p))) ! i"
  proof (cases "i < c")
    case True
    then show ?thesis
      using i by (simp add: copy_channel_nth [OF assms(1) assms(2)] nth_append)
  next
    case False
    then have "i - c < n" using i by simp
    then show ?thesis
      using i False assms(3)
      by (simp add: copy_channel_nth [OF assms(1) assms(2)] nth_append)
  qed
qed

lemma take_block_samples:
  "m \<le> AUDIO_BLOCK_SAMPLES \<Longrightarrow> take m (block_samples s b) = map (block_data s b) [0..<m]"
  by (simp add: block_samples_def take_map)

lemma rx_loop_fits:
  assumes "cnt + len < AUDIO_BLOCK_SAMPLES"
  shows "rx_loop rx data len cnt left1 right1 left2 right2 s
           = s\<lparr>block_data :=
                 copy_to_buffers_4ch len rx data left1 right1 left2 right2 cnt (block_data s),
               incoming_count := cnt + len\<rparr>"
proof (cases "len = 0")
  case True
  have "cnt mod 2 ^ 16 = cnt" using assms by (simp add: AUDIO_BLOCK_SAMPLES_def)
  then show ?thesis using True by (simp add: rx_loop_zero)
next
  case False
  then show ?thesis using assms by (intro rx_loop_short) simp_all
qed

lemma rx_packet_fits:
  assumes "incoming_left s = Some l1" and "incoming_right s = Some r1"
    and "incoming_left2 s = Some l2" and "incoming_right2 s = Some r2"
    and "incoming_count s + len div 8 < AUDIO_BLOCK_SAMPLES"
  shows "usb_audio_receive_callback rx len s
           = s\<lparr>receive_flag := 1,
               block_data :=
                 copy_to_buffers_4ch (len div 8) rx 0 l1 r1 l2 r2 (incoming_count s)
                   (block_data s),
               incoming_count := incoming_count s + len div 8\<rparr>"
proof -
  let ?t = "s\<lparr>receive_flag := 1\<rparr>"
  have acq: "rx_acquire ?t = Inr (l1, r1, l2, r2, ?t)"
    using assms by (intro rx_acquire_all_Some) simp_all
  show ?thesis
    by (simp add: usb_audio_receive_callback_def Let_def acq rx_loop_fits [OF assms(5)])
qed

lemma rx_send_ok:
  assumes "pool_free s = a # b # c # d # rest"
  shows "rx_send l1 r1 l2 r2 s
           = Inr (a, b, c, d,
                  s\<lparr>ready_left := Some l1, ready_right := Some r1,
                    ready_left2 := Some l2, ready_right2 := Some r2,
                    pool_free := rest,
                    incoming_left := Some a, incoming_right := Some b,
                    incoming_left2 := Some c, incoming_right2 := Some d\<rparr>)"
  using assms by (simp add: rx_send_def allocate_def Let_def)

lemma rx_packet_completes:
  assumes "incoming_left s = Some l1" and "incoming_right s = Some r1"
    and "incoming_left2 s = Some l2" and "incoming_right2 s = Some r2"
    and "incoming_count s < AUDIO_BLOCK_SAMPLES"
    and "AUDIO_BLOCK_SAMPLES \<le> incoming_count s + len div 8"
    and "incoming_count s + len div 8 < 2 * AUDIO_BLOCK_SAMPLES"
    and "\<not> ready_occupied s"
    and "pool_free s = a # b # c # d # rest"
  shows "usb_audio_receive_callback rx len s
           = s\<lparr>receive_flag := 1,
               block_data :=
                 copy_to_buffers_4ch (len div 8 - (AUDIO_BLOCK_SAMPLES - incoming_count s)) rx
                   (2 * (AUDIO_BLOCK_SAMPLES - incoming_count s)) a b c d 0
                   (copy_to_buffers_4ch (AUDIO_BLOCK_SAMPLES - incoming_count s) rx 0
                      l1 r1 l2 r2 (incoming_count s) (block_data s)),
               ready_left := Some l1, ready_right := Some r1,
               ready_left2 := Some l2, ready_right2 := Some r2,
               pool_free := rest,
               incoming_left := Some a, incoming_right := Some b,
               incoming_left2 := Some c, incoming_right2 := Some d,
               incoming_count := len div 8 - (AUDIO_BLOCK_SAMPLES - incoming_count s)\<rparr>"
proof -
  let ?t = "s\<lparr>receive_flag := 1\<rparr>"
  let ?u = "?t\<lparr>block_data :=
               copy_to_buffers_4ch (AUDIO_BLOCK_SAMPLES - incoming_count s) rx 0 l1 r1 l2 r2
                 (incoming_count s) (block_data ?t)\<rparr>"
  have acq: "rx_acquire ?t = Inr (l1, r1, l2, r2, ?t)"
    using assms by (intro rx_acquire_all_Some) simp_all
  have occ: "\<not> ready_occupied ?t" using assms(8) by (simp add: ready_occupied_def)
  have cb: "usb_audio_receive_callback rx len s
              = rx_loop rx 0 (len div 8) (incoming_count s) l1 r1 l2 r2 ?t"
    by (simp add: usb_audio_receive_callback_def Let_def acq)
  have p: "pool_free ?u = a # b # c # d # rest" using assms(9) by simp
  have rest: "0 + (len div 8 - (AUDIO_BLOCK_SAMPLES - incoming_count s)) < AUDIO_BLOCK_SAMPLES"
    using assms(5,6,7) by simp
  show ?thesis
    using cb rx_loop_publish [OF assms(5) assms(6) occ, of rx 0 l1 r1 l2 r2]
      rx_send_ok [OF p, of l1 r1 l2 r2]
    by (simp add: rx_loop_fits [OF rest] mult.commute)
qed

lemma rx_packet_alloc:
  assumes "incoming_left s = None" and "incoming_right s = None"
    and "incoming_left2 s = None" and "incoming_right2 s = None"
    and "pool_free s = a # b # c # d # rest"
  shows "usb_audio_receive_callback rx len s
           = usb_audio_receive_callback rx len
               (s\<lparr>pool_free := rest,
                  incoming_left := Some a, incoming_right := Some b,
                  incoming_left2 := Some c, incoming_right2 := Some d\<rparr>)"
proof -
  let ?s' = "s\<lparr>pool_free := rest,
                  incoming_left := Some a, incoming_right := Some b,
                  incoming_left2 := Some c, incoming_right2 := Some d\<rparr>"
  have eq: "s\<lparr>receive_flag := 1, incoming_left := Some a, incoming_right := Some b,
              incoming_left2 := Some c, pool_free := rest, incoming_right2 := Some d\<rparr>
            = ?s'\<lparr>receive_flag := 1\<rparr>"
    by (rule usb.equality) simp_all
  have a1: "rx_acquire (s\<lparr>receive_flag := 1\<rparr>) = Inr (a, b, c, d, ?s'\<lparr>receive_flag := 1\<rparr>)"
    using assms
    by (simp add: rx_acquire_def rx_alloc_left_def rx_alloc_right_def rx_alloc_left2_def
          rx_alloc_right2_def allocate_def eq)
  have a2: "rx_acquire (?s'\<lparr>receive_flag := 1\<rparr>) = Inr (a, b, c, d, ?s'\<lparr>receive_flag := 1\<rparr>)"
    by (intro rx_acquire_all_Some) simp_all
  show ?thesis
    by (simp add: usb_audio_receive_callback_def Let_def a1 a2)
qed

lemma nth4_cases:
  assumes "ch < 4"
  shows "[l1, r1, l2, r2] ! ch = l1 \<or> [l1, r1, l2, r2] ! ch = r1
       \<or> [l1, r1, l2, r2] ! ch = l2 \<or> [l1, r1, l2, r2] ! ch = (r2 :: block)"
proof -
  have "[l1, r1, l2, r2] ! ch \<in> set [l1, r1, l2, r2]"
    using assms by (intro nth_mem) simp
  then show ?thesis by auto
qed

lemma incoming_slot_nth:
  assumes "incoming_left s = Some l1" and "incoming_right s = Some r1"
    and "incoming_left2 s = Some l2" and "incoming_right2 s = Some r2" and "ch < 4"
  shows "incoming_slot ch s = Some ([l1, r1, l2, r2] ! ch)"
proof -
  consider "ch = 0" | "ch = 1" | "ch = 2" | "ch = 3" using assms(5) by linarith
  then show ?thesis using assms(1-4) by cases (simp_all add: incoming_slot_def)
qed

lemma ready_slot_nth:
  assumes "ready_left s = Some l1" and "ready_right s = Some r1"
    and "ready_left2 s = Some l2" and "ready_right2 s = Some r2" and "ch < 4"
  shows "ready_slot ch s = Some ([l1, r1, l2, r2] ! ch)"
proof -
  consider "ch = 0" | "ch = 1" | "ch = 2" | "ch = 3" using assms(5) by linarith
  then show ?thesis using assms(1-4) by cases (simp_all add: ready_slot_def)
qed

lemma ready_slot_empty: "ready_blocks s = [] \<Longrightarrow> ready_slot ch s = None"
  by (simp add: ready_blocks_0 ready_slot_def)

lemma incoming_slot_empty: "incoming_blocks s = [] \<Longrightarrow> incoming_slot ch s = None"
  by (simp add: incoming_blocks_0 incoming_slot_def)

lemma ready_slot_mem: "ready_slot ch s = Some b \<Longrightarrow> b \<in> set (ready_blocks s)"
  by (auto simp: ready_slot_def ready_blocks_def split: if_splits)

lemma block_samples_cong:
  "block_data s b = block_data t b \<Longrightarrow> block_samples s b = block_samples t b"
  by (simp add: block_samples_def)

lemma rx_fits_stream:
  assumes inc: "incoming_left s = Some l1" "incoming_right s = Some r1"
      "incoming_left2 s = Some l2" "incoming_right2 s = Some r2"
    and inv: "rx_inv s" and fits: "incoming_count s + length p < AUDIO_BLOCK_SAMPLES"
    and ch: "ch < 4"
  shows "rx_inv (rx_step (Packet p) s)"
    and "rx_stream (rx_step (Packet p) s) ch = rx_stream s ch @ map (channel_of ch) p"
proof -
  let ?D = "copy_to_buffers_4ch (length p) (frame_words p) (2 * 0) l1 r1 l2 r2 (incoming_count s)
              (block_data s)"
  let ?s' = "s\<lparr>receive_flag := 1, block_data := ?D,
               incoming_count := incoming_count s + length p\<rparr>"
  let ?L = "[l1, r1, l2, r2] ! ch"
  have fits': "incoming_count s + 8 * length p div 8 < AUDIO_BLOCK_SAMPLES"
    using fits by simp
  have step: "rx_step (Packet p) s = ?s'"
    using rx_packet_fits [OF inc fits', of "frame_words p"] by simp
  have ib: "incoming_blocks s = [l1, r1, l2, r2]"
    using inc by (simp add: incoming_blocks_def)
  have dist: "distinct ([l1, r1, l2, r2] @ ready_blocks s @ pool_free s)"
    using inv ib by (simp add: rx_inv_def)
  then have d4: "distinct [l1, r1, l2, r2]" by simp
  have same: "incoming_blocks ?s' = incoming_blocks s" "ready_blocks ?s' = ready_blocks s"
    by (simp_all add: incoming_blocks_def ready_blocks_def)
  show "rx_inv (rx_step (Packet p) s)"
    using inv fits ib unfolding step rx_inv_def same by simp
  have rs: "ready_slot ch ?s' = ready_slot ch s" by (simp add: ready_slot_def)
  have "block_samples ?s' b = block_samples s b" if "ready_slot ch s = Some b" for b
  proof -
    have "b \<in> set (ready_blocks s)" using that by (rule ready_slot_mem)
    then have "b \<noteq> l1" "b \<noteq> r1" "b \<noteq> l2" "b \<noteq> r2" using dist by auto
    then have "block_data ?s' b = block_data s b"
      by (simp add: copy_to_buffers_4ch_other)
    then show ?thesis by (rule block_samples_cong)
  qed
  then have ready: "(case ready_slot ch ?s' of None \<Rightarrow> [] | Some b \<Rightarrow> block_samples ?s' b)
          = (case ready_slot ch s of None \<Rightarrow> [] | Some b \<Rightarrow> block_samples s b)"
    unfolding rs by (simp split: option.splits)
  have i': "incoming_slot ch ?s' = Some ?L" using inc ch by (intro incoming_slot_nth) simp_all
  have i: "incoming_slot ch s = Some ?L" using inc ch by (rule incoming_slot_nth)
  have le: "incoming_count s + length p \<le> AUDIO_BLOCK_SAMPLES"
    "incoming_count s \<le> AUDIO_BLOCK_SAMPLES" using fits by simp_all
  have "take (incoming_count s + length p) (block_samples ?s' ?L)
          = map (?D ?L) [0..<incoming_count s + length p]"
    using take_block_samples [OF le(1), of ?s' ?L] by simp
  also have "\<dots> = map (block_data s ?L) [0..<incoming_count s]
                   @ map (channel_of ch) (take (length p) (drop 0 p))"
    by (rule copy_channel_samples [OF d4 ch]) simp
  also have "\<dots> = take (incoming_count s) (block_samples s ?L) @ map (channel_of ch) p"
    using take_block_samples [OF le(2), of s ?L] by simp
  finally have inc_part: "take (incoming_count s + length p) (block_samples ?s' ?L)
          = take (incoming_count s) (block_samples s ?L) @ map (channel_of ch) p" .
  show "rx_stream (rx_step (Packet p) s) ch = rx_stream s ch @ map (channel_of ch) p"
    unfolding step rx_stream_def ready i i' using inc_part by simp
qed

lemma rx_completes_stream:
  assumes inc: "incoming_left s = Some l1" "incoming_right s = Some r1"
      "incoming_left2 s = Some l2" "incoming_right2 s = Some r2"
    and inv: "rx_inv s"
    and full: "AUDIO_BLOCK_SAMPLES \<le> incoming_count s + length p"
    and one: "incoming_count s + length p < 2 * AUDIO_BLOCK_SAMPLES"
    and empty: "ready_blocks s = []"
    and pool: "pool_free s = a # b # c # d # rest"
    and ch: "ch < 4"
  shows "rx_inv (rx_step (Packet p) s)"
    and "rx_stream (rx_step (Packet p) s) ch = rx_stream s ch @ map (channel_of ch) p"
proof -
  let ?m = "AUDIO_BLOCK_SAMPLES - incoming_count s"
  let ?n' = "length p - ?m"
  let ?D1 = "copy_to_buffers_4ch ?m (frame_words p) (2 * 0) l1 r1 l2 r2 (incoming_count s)
               (block_data s)"
  let ?D2 = "copy_to_buffers_4ch ?n' (frame_words p) (2 * ?m) a b c d 0 ?D1"
  let ?s' = "s\<lparr>receive_flag := 1, block_data := ?D2,
               ready_left := Some l1, ready_right := Some r1,
               ready_left2 := Some l2, ready_right2 := Some r2,
               pool_free := rest,
               incoming_left := Some a, incoming_right := Some b,
               incoming_left2 := Some c, incoming_right2 := Some d,
               incoming_count := ?n'\<rparr>"
  let ?L = "[l1, r1, l2, r2] ! ch"
  let ?N = "[a, b, c, d] ! ch"
  have cnt: "incoming_count s < AUDIO_BLOCK_SAMPLES" using inv by (simp add: rx_inv_def)
  have full': "AUDIO_BLOCK_SAMPLES \<le> incoming_count s + 8 * length p div 8"
    and one': "incoming_count s + 8 * length p div 8 < 2 * AUDIO_BLOCK_SAMPLES"
    using full one by simp_all
  have occ: "\<not> ready_occupied s" using empty by (simp add: ready_occupied_blocks)
  have step: "rx_step (Packet p) s = ?s'"
    using rx_packet_completes [OF inc cnt full' one' occ pool, of "frame_words p"] by simp
  have ib: "incoming_blocks s = [l1, r1, l2, r2]"
    using inc by (simp add: incoming_blocks_def)
  have dist: "distinct ([l1, r1, l2, r2] @ a # b # c # d # rest)"
    using inv ib empty pool by (simp add: rx_inv_def)
  then have d4: "distinct [l1, r1, l2, r2]" and n4: "distinct [a, b, c, d]" by simp_all
  have blocks': "incoming_blocks ?s' = [a, b, c, d]" "ready_blocks ?s' = [l1, r1, l2, r2]"
    by (simp_all add: incoming_blocks_def ready_blocks_def)
  have n': "?n' < AUDIO_BLOCK_SAMPLES" using one cnt by simp
  show "rx_inv (rx_step (Packet p) s)"
    using dist n' unfolding step rx_inv_def blocks' by auto
  have r': "ready_slot ch ?s' = Some ?L" using ch by (intro ready_slot_nth) simp_all
  have i': "incoming_slot ch ?s' = Some ?N" using ch by (intro incoming_slot_nth) simp_all
  have r: "ready_slot ch s = None" using empty by (rule ready_slot_empty)
  have i: "incoming_slot ch s = Some ?L" using inc ch by (rule incoming_slot_nth)
  have Lne: "?L \<noteq> a" "?L \<noteq> b" "?L \<noteq> c" "?L \<noteq> d"
    using nth4_cases [OF ch, of l1 r1 l2 r2] dist by auto
  have DL: "?D2 ?L = ?D1 ?L"
    by (rule copy_to_buffers_4ch_other [OF Lne])
  have m: "incoming_count s + ?m = AUDIO_BLOCK_SAMPLES" "?m \<le> length p"
    using cnt full by simp_all
  have le: "incoming_count s \<le> AUDIO_BLOCK_SAMPLES" using cnt by simp
  have "block_samples ?s' ?L = map (?D1 ?L) [0..<incoming_count s + ?m]"
    using DL m(1) by (simp add: block_samples_def)
  also have "\<dots> = map (block_data s ?L) [0..<incoming_count s]
                   @ map (channel_of ch) (take ?m (drop 0 p))"
    by (rule copy_channel_samples [OF d4 ch]) (use m(2) in simp)
  also have "\<dots> = take (incoming_count s) (block_samples s ?L)
                   @ map (channel_of ch) (take ?m p)"
    using take_block_samples [OF le, of s ?L] by simp
  finally have ready_part: "block_samples ?s' ?L
          = take (incoming_count s) (block_samples s ?L) @ map (channel_of ch) (take ?m p)" .
  have le': "0 + ?n' \<le> AUDIO_BLOCK_SAMPLES" using n' by simp
  have "take ?n' (block_samples ?s' ?N) = map (?D2 ?N) [0..<0 + ?n']"
    using take_block_samples [OF le', of ?s' ?N] by simp
  also have "\<dots> = map (?D1 ?N) [0..<0] @ map (channel_of ch) (take ?n' (drop ?m p))"
    by (rule copy_channel_samples [OF n4 ch]) (use m(2) in simp)
  also have "\<dots> = map (channel_of ch) (drop ?m p)" by simp
  finally have inc_part: "take ?n' (block_samples ?s' ?N) = map (channel_of ch) (drop ?m p)" .
  have "map (channel_of ch) (take ?m p) @ map (channel_of ch) (drop ?m p)
          = map (channel_of ch) p"
    by (simp flip: map_append)
  then show "rx_stream (rx_step (Packet p) s) ch = rx_stream s ch @ map (channel_of ch) p"
    unfolding step rx_stream_def r r' i i' using ready_part inc_part by simp
qed

lemma list4_exhaust:
  assumes "4 \<le> length xs"
  obtains a b c d rest where "xs = a # b # c # d # rest"
proof -
  obtain a xs1 where 1: "xs = a # xs1" using assms by (cases xs) auto
  obtain b xs2 where 2: "xs1 = b # xs2" using assms 1 by (cases xs1) auto
  obtain c xs3 where 3: "xs2 = c # xs3" using assms 1 2 by (cases xs2) auto
  obtain d xs4 where 4: "xs3 = d # xs4" using assms 1 2 3 by (cases xs3) auto
  show thesis using that 1 2 3 4 by simp
qed

lemma rx_present_stream:
  assumes inc: "incoming_left s = Some l1" "incoming_right s = Some r1"
      "incoming_left2 s = Some l2" "incoming_right2 s = Some r2"
    and inv: "rx_inv s" and ok: "rx_event_ok (Packet p) s" and ch: "ch < 4"
  shows "rx_inv (rx_step (Packet p) s)
       \<and> rx_stream (rx_step (Packet p) s) ch = rx_stream s ch @ map (channel_of ch) p"
proof (cases "incoming_count s + length p < AUDIO_BLOCK_SAMPLES")
  case True
  then show ?thesis
    using rx_fits_stream [OF inc inv True ch] by simp
next
  case False
  then have ok': "4 \<le> length (pool_free s)" "ready_blocks s = []"
    "incoming_count s + length p < 2 * AUDIO_BLOCK_SAMPLES"
    using ok by (simp_all add: rx_event_ok_def)
  from ok'(1) obtain a b c d rest where pool: "pool_free s = a # b # c # d # rest"
    by (rule list4_exhaust)
  have full: "AUDIO_BLOCK_SAMPLES \<le> incoming_count s + length p" using False by simp
  show ?thesis
    using rx_completes_stream [OF inc inv full ok'(3) ok'(2) pool ch] by simp
qed

lemma rx_absent_stream:
  assumes none: "incoming_blocks s = []"
    and inv: "rx_inv s" and ok: "rx_event_ok (Packet p) s" and ch: "ch < 4"
  shows "rx_inv (rx_step (Packet p) s)
       \<and> rx_stream (rx_step (Packet p) s) ch = rx_stream s ch @ map (channel_of ch) p"
proof -
  have n: "incoming_left s = None" "incoming_right s = None"
    "incoming_left2 s = None" "incoming_right2 s = None"
    using none by (simp_all add: incoming_blocks_0)
  have c0: "incoming_count s = 0" using inv none by (simp add: rx_inv_def)
  have "4 \<le> length (pool_free s)"
    using ok none by (simp add: rx_event_ok_def split: if_splits)
  then obtain a b c d rest where pool: "pool_free s = a # b # c # d # rest"
    by (rule list4_exhaust)
  let ?t = "s\<lparr>pool_free := rest,
                incoming_left := Some a, incoming_right := Some b,
                incoming_left2 := Some c, incoming_right2 := Some d\<rparr>"
  have step: "rx_step (Packet p) s = rx_step (Packet p) ?t"
    using rx_packet_alloc [OF n pool] by simp
  have bt: "incoming_blocks ?t = [a, b, c, d]" "ready_blocks ?t = ready_blocks s"
    by (simp_all add: incoming_blocks_def ready_blocks_def)
  have inv_t: "rx_inv ?t"
    using inv none pool unfolding rx_inv_def bt by auto
  have ok_t: "rx_event_ok (Packet p) ?t"
    using ok none pool unfolding rx_event_ok_def bt by (simp split: if_splits)
  have inc_t: "incoming_left ?t = Some a" "incoming_right ?t = Some b"
    "incoming_left2 ?t = Some c" "incoming_right2 ?t = Some d" by simp_all
  have it: "incoming_slot ch ?t = Some ([a, b, c, d] ! ch)"
    using inc_t ch by (rule incoming_slot_nth)
  have "ready_slot ch ?t = ready_slot ch s" "block_samples ?t = block_samples s"
    by (simp_all add: ready_slot_def block_samples_def fun_eq_iff)
  then have stream_t: "rx_stream ?t ch = rx_stream s ch"
    unfolding rx_stream_def it incoming_slot_empty [OF none] using c0
    by (simp split: option.splits)
  show ?thesis
    unfolding step using rx_present_stream [OF inc_t inv_t ok_t ch] stream_t by simp
qed

lemma rx_packet_stream:
  assumes "rx_inv s" and "rx_event_ok (Packet p) s" and "ch < 4"
  shows "rx_inv (rx_step (Packet p) s)
       \<and> rx_stream (rx_step (Packet p) s) ch = rx_stream s ch @ map (channel_of ch) p"
proof -
  consider "length (incoming_blocks s) = 4" | "incoming_blocks s = []"
    using assms(1) by (auto simp: rx_inv_def)
  then show ?thesis
  proof cases
    case 1
    then obtain l1 r1 l2 r2 where "incoming_left s = Some l1" "incoming_right s = Some r1"
      "incoming_left2 s = Some l2" "incoming_right2 s = Some r2"
      by (auto simp: incoming_blocks_4)
    then show ?thesis by (rule rx_present_stream [OF _ _ _ _ assms])
  next
    case 2
    then show ?thesis by (rule rx_absent_stream [OF _ assms])
  qed
qed

lemma transmit_release_Some:
  "transmit_release (Some b) c s
     = s\<lparr>transmitted := (transmitted s)(c := transmitted s c @ block_samples s b),
         pool_free := b # pool_free s\<rparr>"
  by (simp add: transmit_release_def release_def)

lemma transmit_release_None: "transmit_release None c s = s"
  by (simp add: transmit_release_def)

lemma rx_update_stream:
  assumes inv: "rx_inv s" and ch: "ch < 4"
  shows "rx_inv (rx_step Update s) \<and> rx_stream (rx_step Update s) ch = rx_stream s ch"
proof -
  consider "length (ready_blocks s) = 4" | "ready_blocks s = []"
    using inv by (auto simp: rx_inv_def)
  then show ?thesis
  proof cases
    case 1
    then obtain l1 r1 l2 r2 where rd: "ready_left s = Some l1" "ready_right s = Some r1"
      "ready_left2 s = Some l2" "ready_right2 s = Some r2"
      by (auto simp: ready_blocks_4)
    let ?u = "AudioInputUSB_update s"
    have rb: "ready_blocks s = [l1, r1, l2, r2]" using rd by (simp add: ready_blocks_def)
    have f: "incoming_left ?u = incoming_left s" "incoming_right ?u = incoming_right s"
      "incoming_left2 ?u = incoming_left2 s" "incoming_right2 ?u = incoming_right2 s"
      "ready_left ?u = None" "ready_right ?u = None" "ready_left2 ?u = None"
      "ready_right2 ?u = None" "incoming_count ?u = incoming_count s"
      "block_data ?u = block_data s" "pool_free ?u = r2 # l2 # r1 # l1 # pool_free s"
      using rd
      by (simp_all add: AudioInputUSB_update_def Let_def transmit_release_Some
            block_samples_def)
    have tr: "transmitted ?u
               = (transmitted s)(0 := transmitted s 0 @ block_samples s l1,
                    1 := transmitted s 1 @ block_samples s r1,
                    2 := transmitted s 2 @ block_samples s l2,
                    3 := transmitted s 3 @ block_samples s r2)"
      using rd
      by (simp add: AudioInputUSB_update_def Let_def transmit_release_Some
            block_samples_def)
    have bl: "incoming_blocks ?u = incoming_blocks s" "ready_blocks ?u = []"
      by (simp_all add: incoming_blocks_def ready_blocks_def f)
    have i1: "rx_inv ?u"
      using inv unfolding rx_inv_def bl f rb by auto
    consider "ch = 0" | "ch = 1" | "ch = 2" | "ch = 3" using ch by linarith
    then have trc: "transmitted ?u ch = transmitted s ch @ block_samples s ([l1, r1, l2, r2] ! ch)"
      by cases (simp_all add: tr)
    have rs: "ready_slot ch s = Some ([l1, r1, l2, r2] ! ch)"
      using rd ch by (rule ready_slot_nth)
    have ru: "ready_slot ch ?u = None" by (simp add: ready_slot_def f)
    have iu: "incoming_slot ch ?u = incoming_slot ch s" by (simp add: incoming_slot_def f)
    have bs: "block_samples ?u = block_samples s" by (simp add: block_samples_def f fun_eq_iff)
    have "rx_stream ?u ch = rx_stream s ch"
      unfolding rx_stream_def trc rs ru iu bs f by (simp cong: option.case_cong)
    then show ?thesis using i1 by simp
  next
    case 2
    then have rd: "ready_left s = None" "ready_right s = None"
      "ready_left2 s = None" "ready_right2 s = None"
      by (simp_all add: ready_blocks_0)
    let ?u = "AudioInputUSB_update s"
    have f: "incoming_left ?u = incoming_left s" "incoming_right ?u = incoming_right s"
      "incoming_left2 ?u = incoming_left2 s" "incoming_right2 ?u = incoming_right2 s"
      "ready_left ?u = None" "ready_right ?u = None" "ready_left2 ?u = None"
      "ready_right2 ?u = None" "incoming_count ?u = incoming_count s"
      "block_data ?u = block_data s" "pool_free ?u = pool_free s"
      "transmitted ?u = transmitted s"
      using rd by (simp_all add: AudioInputUSB_update_def Let_def transmit_release_None)
    have bl: "incoming_blocks ?u = incoming_blocks s" "ready_blocks ?u = ready_blocks s"
      by (simp_all add: incoming_blocks_def ready_blocks_def f rd)
    have i1: "rx_inv ?u" using inv unfolding rx_inv_def bl f by simp
    have "ready_slot ch ?u = ready_slot ch s" "incoming_slot ch ?u = incoming_slot ch s"
      "block_samples ?u = block_samples s"
      by (simp_all add: ready_slot_def incoming_slot_def block_samples_def f rd fun_eq_iff)
    then have "rx_stream ?u ch = rx_stream s ch"
      unfolding rx_stream_def f by (simp cong: option.case_cong)
    then show ?thesis using i1 by simp
  qed
qed

lemma rx_step_stream:
  assumes "rx_inv s" and "rx_event_ok e s" and "ch < 4"
  shows "rx_inv (rx_step e s)
       \<and> rx_stream (rx_step e s) ch
           = rx_stream s ch @ map (channel_of ch) (case e of Packet p \<Rightarrow> p | Update \<Rightarrow> [])"
proof (cases e)
  case (Packet p)
  then show ?thesis using rx_packet_stream [OF assms(1) _ assms(3), of p] assms(2) by simp
next
  case Update
  then show ?thesis using rx_update_stream [OF assms(1) assms(3)] by simp
qed

lemma rx_run_stream:
  assumes "rx_inv s" and "rx_assumed es s" and "ch < 4"
  shows "rx_inv (rx_run es s)
       \<and> rx_stream (rx_run es s) ch = rx_stream s ch @ map (channel_of ch) (frames_of es)"
  using assms(1,2)
proof (induction es arbitrary: s)
  case Nil
  then show ?case by simp
next
  case (Cons e es)
  have ok: "rx_event_ok e s" and rest: "rx_assumed es (rx_step e s)"
    using Cons.prems(2) by simp_all
  note st = rx_step_stream [OF Cons.prems(1) ok assms(3)]
  from Cons.IH [OF conjunct1 [OF st] rest] st
  show ?case by simp
qed

lemma AudioInputUSB_begin_inv:
  "distinct (pool_free s) \<Longrightarrow> rx_inv (AudioInputUSB_begin s)"
  by (simp add: rx_inv_def AudioInputUSB_begin_def incoming_blocks_def ready_blocks_def
        AUDIO_BLOCK_SAMPLES_def)

lemma rx_begun_inv: "rx_inv rx_begun"
  by (simp add: rx_inv_def rx_begun_def AudioInputUSB_begin_def usb_audio_configure_def usb0_def
        incoming_blocks_def ready_blocks_def AUDIO_BLOCK_SAMPLES_def)

text \<open>
  C7 (receive reassembly). Take a state of the receive path that satisfies its
  invariant (such as the state after \<open>begin\<close>) and two deliveries of the same stream of
  frames, cut into packets at any boundaries and with the updates that drain the
  mailbox at any places. If both deliveries meet the assumptions (no allocation fails,
  the mailbox is drained whenever a packet completes a block set, and no packet
  completes two), then for every channel the samples taken in are the same in both:
  the samples taken in before, followed by the de-interleaved samples of the channel
  in stream order. A delivery of the whole stream in one packet is one such delivery.
\<close>

theorem rx_reassembly:
  assumes "rx_inv s" and "rx_assumed es s" and "rx_assumed es' s"
    and "frames_of es = frames_of es'" and "ch < 4"
  shows "rx_stream (rx_run es s) ch = rx_stream s ch @ map (channel_of ch) (frames_of es)
       \<and> rx_stream (rx_run es' s) ch = rx_stream (rx_run es s) ch"
  using rx_run_stream [OF assms(1) assms(2) assms(5)] rx_run_stream [OF assms(1) assms(3) assms(5)]
    assms(4)
  by simp

theorem rx_reassembly_witness:
  "rx_inv rx_begun
   \<and> rx_assumed [Packet [(0x00020001, 0x00040003), (0x00060005, 0x00080007)], Update,
                  Packet [(0x000A0009, 0x000C000B)]] rx_begun
   \<and> rx_assumed [Packet [(0x00020001, 0x00040003), (0x00060005, 0x00080007),
                          (0x000A0009, 0x000C000B)]] rx_begun
   \<and> frames_of [Packet [(0x00020001, 0x00040003), (0x00060005, 0x00080007)], Update,
                 Packet [(0x000A0009, 0x000C000B)]]
       = frames_of [Packet [(0x00020001, 0x00040003), (0x00060005, 0x00080007),
                            (0x000A0009, 0x000C000B)]]
   \<and> (2::nat) < 4
   \<and> rx_stream (rx_run [Packet [(0x00020001, 0x00040003), (0x00060005, 0x00080007)], Update,
                         Packet [(0x000A0009, 0x000C000B)]] rx_begun) 2
       = [3, 7, 11]
   \<and> rx_stream (rx_run [Packet [(0x00020001, 0x00040003), (0x00060005, 0x00080007),
                                 (0x000A0009, 0x000C000B)]] rx_begun) 2
       = [3, 7, 11]"
proof -
  let ?es = "[Packet [(0x00020001, 0x00040003), (0x00060005, 0x00080007)], Update,
              Packet [(0x000A0009, 0x000C000B)]]"
  let ?es' = "[Packet [(0x00020001, 0x00040003), (0x00060005, 0x00080007),
                       (0x000A0009, 0x000C000B)]]"
  have a1: "rx_assumed ?es rx_begun"
    by (simp add: rx_event_ok_def rx_begun_def rx_eval incoming_blocks_def ready_blocks_def)
  have a2: "rx_assumed ?es' rx_begun"
    by (simp add: rx_event_ok_def rx_begun_def rx_eval incoming_blocks_def ready_blocks_def)
  have fr: "frames_of ?es = frames_of ?es'" by simp
  have c: "(2::nat) < 4" by simp
  have s0: "rx_stream rx_begun 2 = []"
    by (simp add: rx_stream_def rx_begun_def AudioInputUSB_begin_def usb_audio_configure_def
          usb0_def ready_slot_def incoming_slot_def)
  have v: "map (channel_of 2) (frames_of ?es) = [3, 7, 11]"
    by (simp add: channel_of_def)
  show ?thesis
    using rx_begun_inv a1 a2 fr rx_reassembly [OF rx_begun_inv a1 a2 fr c] s0 v
    by (simp del: rx_run.simps rx_assumed.simps frames_of.simps)
qed


section \<open>Verification of the USB transmit path\<close>

lemma memset_words_at_apply:
  "memset_words_at start n a j = (if start \<le> j \<and> j < start + n then 0 else a j)"
  by (induction n) auto

lemma tx_target_cases:
  "fst (tx_target s) = 44 \<or> fst (tx_target s) = 45"
  by (simp add: tx_target_def)

lemma tx_target_state:
  "snd (tx_target s) = s\<lparr>tx_count := tx_count (snd (tx_target s))\<rparr>"
  by (simp add: tx_target_def)

lemma tx_loop_empty:
  assumes "left_1st s = None" and "len < target"
  shows "tx_loop target len s
           = Some (s\<lparr>usb_audio_transmit_buffer :=
                       memset_words_at len (2 * (target - len)) (usb_audio_transmit_buffer s)\<rparr>)"
  using assms by (subst tx_loop.simps) simp

lemma tx_loop_done: "\<not> len < target \<Longrightarrow> tx_loop target len s = Some s"
  by (subst tx_loop.simps) simp

lemma tx_loop_step:
  assumes "left_1st s = Some l1" and "right_1st s = Some r1"
    and "left2_1st s = Some l2" and "right2_1st s = Some r2" and "len < target"
  shows "tx_loop target len s
           = tx_loop target (fst (tx_consume target len l1 r1 l2 r2 s))
               (snd (tx_consume target len l1 r1 l2 r2 s))"
  using assms by (subst tx_loop.simps) simp

lemma tx_consume_underrun:
  "usb_audio_underrun_count (snd (tx_consume target len l1 r1 l2 r2 s))
     = usb_audio_underrun_count s"
  by (simp add: tx_consume_def Let_def)

lemma tx_loop_underrun:
  "tx_loop target len s = Some s' \<Longrightarrow> usb_audio_underrun_count s' = usb_audio_underrun_count s"
proof (induction target len s rule: tx_loop.induct)
  case (1 target len s)
  show ?case
  proof (cases "len < target")
    case False
    then show ?thesis using "1.prems" by (simp add: tx_loop_done)
  next
    case lt: True
    show ?thesis
    proof (cases "left_1st s")
      case None
      then show ?thesis using "1.prems" lt by (auto simp: tx_loop_empty)
    next
      case (Some l1)
      show ?thesis
      proof (cases "right_1st s")
        case None
        then show ?thesis using "1.prems" lt Some by (subst (asm) tx_loop.simps) simp
      next
        case r: (Some r1)
        show ?thesis
        proof (cases "left2_1st s")
          case None
          then show ?thesis using "1.prems" lt Some r by (subst (asm) tx_loop.simps) simp
        next
          case l: (Some l2)
          show ?thesis
          proof (cases "right2_1st s")
            case None
            then show ?thesis using "1.prems" lt Some r l by (subst (asm) tx_loop.simps) simp
          next
            case rr: (Some r2)
            have "tx_loop target (fst (tx_consume target len l1 r1 l2 r2 s))
                    (snd (tx_consume target len l1 r1 l2 r2 s)) = Some s'"
              using "1.prems" tx_loop_step [OF Some r l rr lt] by simp
            from "1.IH" [OF lt Some _ r _ l rr this]
            show ?thesis by (simp add: tx_consume_underrun)
          qed
        qed
      qed
    qed
  qed
qed

lemma tx_consume_inv:
  assumes "tx_inv s"
  shows "tx_inv (snd (tx_consume target len l1 r1 l2 r2 s))"
  using assms
  by (auto simp: tx_inv_def tx_consume_def Let_def u32_sub_def AUDIO_BLOCK_SAMPLES_def)

lemma tx_loop_inv:
  "tx_inv s \<Longrightarrow> \<exists>s'. tx_loop target len s = Some s' \<and> tx_inv s'"
proof (induction target len s rule: tx_loop.induct)
  case (1 target len s)
  show ?case
  proof (cases "len < target")
    case False
    then show ?thesis using "1.prems" by (simp add: tx_loop_done)
  next
    case lt: True
    show ?thesis
    proof (cases "left_1st s")
      case None
      then show ?thesis using "1.prems" lt by (simp add: tx_loop_empty tx_inv_def)
    next
      case (Some l1)
      then obtain r1 l2 r2 where r: "right_1st s = Some r1" and l: "left2_1st s = Some l2"
        and rr: "right2_1st s = Some r2"
        using "1.prems" by (auto simp: tx_inv_def)
      have "tx_inv (snd (tx_consume target len l1 r1 l2 r2 s))"
        by (rule tx_consume_inv [OF "1.prems"])
      from "1.IH" [OF lt Some _ r _ l rr this]
      show ?thesis by (simp add: tx_loop_step [OF Some r l rr lt])
    qed
  qed
qed

lemma tx_target_inv: "tx_inv s \<Longrightarrow> tx_inv (snd (tx_target s))"
  by (simp add: tx_inv_def tx_target_def)

lemma usb_audio_transmit_callback_inv:
  assumes "tx_inv s"
  shows "\<exists>s'. usb_audio_transmit_callback s = Some (s', fst (tx_target s) * 8) \<and> tx_inv s'"
proof -
  obtain s' where "tx_loop (fst (tx_target s)) 0 (snd (tx_target s)) = Some s'" and "tx_inv s'"
    using tx_loop_inv [OF tx_target_inv [OF assms]] by blast
  then show ?thesis
    by (simp add: usb_audio_transmit_callback_def case_prod_unfold)
qed

lemma tx_silence_inv:
  "tx_inv s \<Longrightarrow> tx_inv (snd (tx_silence blk s))"
  by (auto simp: tx_silence_def tx_inv_def allocate_def split: option.splits list.splits)

lemma tx_enqueue_inv:
  "tx_inv s \<Longrightarrow> tx_inv (tx_enqueue l1 r1 l2 r2 s)"
  by (auto simp: tx_enqueue_def tx_inv_def Let_def AUDIO_BLOCK_SAMPLES_def)

lemma tx_inv_pool: "tx_inv (s\<lparr>pool_free := p\<rparr>) = tx_inv s"
  by (simp add: tx_inv_def)

lemma AudioOutputUSB_update_inv:
  assumes "tx_inv s"
  shows "tx_inv (AudioOutputUSB_update rcv0 rcv1 rcv2 rcv3 setting s)"
proof (cases "setting = 0")
  case True
  then show ?thesis
    by (simp add: AudioOutputUSB_update_def Let_def tx_inv_def AUDIO_BLOCK_SAMPLES_def)
next
  case False
  obtain a s1 where s1: "tx_silence rcv0 s = (a, s1)" by (cases "tx_silence rcv0 s")
  obtain b s2 where s2: "tx_silence rcv1 s1 = (b, s2)" by (cases "tx_silence rcv1 s1")
  obtain c s3 where s3: "tx_silence rcv2 s2 = (c, s3)" by (cases "tx_silence rcv2 s2")
  obtain d s4 where s4: "tx_silence rcv3 s3 = (d, s4)" by (cases "tx_silence rcv3 s3")
  have i1: "tx_inv s1" using tx_silence_inv [OF assms, of rcv0] s1 by simp
  have i2: "tx_inv s2" using tx_silence_inv [OF i1, of rcv1] s2 by simp
  have i3: "tx_inv s3" using tx_silence_inv [OF i2, of rcv2] s3 by simp
  have i4: "tx_inv s4" using tx_silence_inv [OF i3, of rcv3] s4 by simp
  show ?thesis
    using False i4
    by (simp add: AudioOutputUSB_update_def s1 s2 s3 s4 tx_enqueue_inv tx_inv_pool
          split: option.splits)
qed

lemma tx_reachable_inv: "tx_reachable s \<Longrightarrow> tx_inv s"
proof (induction rule: tx_reachable.induct)
  case (tx_reachable_begin s)
  show ?case by (simp add: tx_inv_def AudioOutputUSB_begin_def AUDIO_BLOCK_SAMPLES_def)
next
  case (tx_reachable_update s rcv0 rcv1 rcv2 rcv3 setting)
  then show ?case by (simp add: AudioOutputUSB_update_inv)
next
  case (tx_reachable_callback s s' n)
  then show ?case using usb_audio_transmit_callback_inv [of s] by auto
qed

lemma tx_consume_unfold:
  "tx_consume target len l1 r1 l2 r2 s =
     (let num = min (target - len) (u32_sub AUDIO_BLOCK_SAMPLES (offset_1st s));
          s' = s\<lparr>usb_audio_transmit_buffer :=
                  copy_from_buffers_4ch num (len * 2) l1 r1 l2 r2 (offset_1st s)
                    (block_data s) (usb_audio_transmit_buffer s)\<rparr>
      in if AUDIO_BLOCK_SAMPLES \<le> offset_1st s + num then
           (len + num,
            s'\<lparr>pool_free := release r2 (release l2 (release r1 (release l1 (pool_free s)))),
              left_1st := left_2nd s, left_2nd := None,
              right_1st := right_2nd s, right_2nd := None,
              left2_1st := left2_2nd s, left2_2nd := None,
              right2_1st := right2_2nd s, right2_2nd := None,
              offset_1st := 0\<rparr>)
         else (len + num, s'\<lparr>offset_1st := (offset_1st s + num) mod 2 ^ 16\<rparr>))"
  by (simp add: tx_consume_def Let_def min_def not_less)

lemma tx_consume_partial:
  assumes "offset_1st s + (target - len) < AUDIO_BLOCK_SAMPLES" and "len < target"
  shows "tx_consume target len l1 r1 l2 r2 s
           = (target,
              s\<lparr>usb_audio_transmit_buffer :=
                  copy_from_buffers_4ch (target - len) (len * 2) l1 r1 l2 r2 (offset_1st s)
                    (block_data s) (usb_audio_transmit_buffer s),
                offset_1st := offset_1st s + (target - len)\<rparr>)"
proof -
  have "min (target - len) (u32_sub AUDIO_BLOCK_SAMPLES (offset_1st s)) = target - len"
    using assms by (simp add: u32_sub_def)
  moreover have "\<not> AUDIO_BLOCK_SAMPLES \<le> offset_1st s + (target - len)"
    using assms by simp
  moreover have "(offset_1st s + (target - len)) mod 2 ^ 16 = offset_1st s + (target - len)"
    using assms(1) by (simp add: AUDIO_BLOCK_SAMPLES_def)
  moreover have "len + (target - len) = target"
    using assms(2) by simp
  ultimately show ?thesis
    by (simp add: tx_consume_unfold Let_def)
qed

lemma tx_consume_whole:
  assumes "offset_1st s < AUDIO_BLOCK_SAMPLES"
    and "AUDIO_BLOCK_SAMPLES \<le> offset_1st s + (target - len)"
  shows "tx_consume target len l1 r1 l2 r2 s
           = (len + (AUDIO_BLOCK_SAMPLES - offset_1st s),
              s\<lparr>usb_audio_transmit_buffer :=
                  copy_from_buffers_4ch (AUDIO_BLOCK_SAMPLES - offset_1st s) (len * 2)
                    l1 r1 l2 r2 (offset_1st s) (block_data s) (usb_audio_transmit_buffer s),
                pool_free := release r2 (release l2 (release r1 (release l1 (pool_free s)))),
                left_1st := left_2nd s, left_2nd := None,
                right_1st := right_2nd s, right_2nd := None,
                left2_1st := left2_2nd s, left2_2nd := None,
                right2_1st := right2_2nd s, right2_2nd := None,
                offset_1st := 0\<rparr>)"
proof -
  have "min (target - len) (u32_sub AUDIO_BLOCK_SAMPLES (offset_1st s))
          = AUDIO_BLOCK_SAMPLES - offset_1st s"
    using assms by (simp add: u32_sub_def)
  moreover have "AUDIO_BLOCK_SAMPLES \<le> offset_1st s + (AUDIO_BLOCK_SAMPLES - offset_1st s)"
    using assms(1) by simp
  ultimately show ?thesis
    by (simp add: tx_consume_unfold Let_def)
qed

lemma usb_audio_transmit_callback_partial:
  assumes "left_1st s = Some l1" and "right_1st s = Some r1"
    and "left2_1st s = Some l2" and "right2_1st s = Some r2"
    and "offset_1st s + fst (tx_target s) < AUDIO_BLOCK_SAMPLES"
  shows "usb_audio_transmit_callback s
           = Some (s\<lparr>tx_count := tx_count (snd (tx_target s)),
                     usb_audio_transmit_buffer :=
                       copy_from_buffers_4ch (fst (tx_target s)) 0 l1 r1 l2 r2 (offset_1st s)
                         (block_data s) (usb_audio_transmit_buffer s),
                     offset_1st := offset_1st s + fst (tx_target s)\<rparr>,
                   fst (tx_target s) * 8)"
proof -
  let ?t = "snd (tx_target s)"
  let ?n = "fst (tx_target s)"
  have t: "?t = s\<lparr>tx_count := tx_count ?t\<rparr>" by (rule tx_target_state)
  have pos: "0 < ?n" using tx_target_cases [of s] by auto
  have h: "left_1st ?t = Some l1" "right_1st ?t = Some r1" "left2_1st ?t = Some l2"
    "right2_1st ?t = Some r2" "offset_1st ?t = offset_1st s" "block_data ?t = block_data s"
    "usb_audio_transmit_buffer ?t = usb_audio_transmit_buffer s"
    using assms by (simp_all add: tx_target_def)
  have part: "offset_1st ?t + (?n - 0) < AUDIO_BLOCK_SAMPLES" using assms(5) h by simp
  have "tx_loop ?n 0 ?t
          = tx_loop ?n (fst (tx_consume ?n 0 l1 r1 l2 r2 ?t)) (snd (tx_consume ?n 0 l1 r1 l2 r2 ?t))"
    by (rule tx_loop_step [OF h(1-4) pos])
  also have "\<dots> = Some (?t\<lparr>usb_audio_transmit_buffer :=
                  copy_from_buffers_4ch ?n 0 l1 r1 l2 r2 (offset_1st s)
                    (block_data s) (usb_audio_transmit_buffer s),
                offset_1st := offset_1st s + ?n\<rparr>)"
    using tx_consume_partial [OF part pos, of l1 r1 l2 r2] h by (simp add: tx_loop_done)
  finally have "tx_loop ?n 0 ?t = Some (?t\<lparr>usb_audio_transmit_buffer :=
                  copy_from_buffers_4ch ?n 0 l1 r1 l2 r2 (offset_1st s)
                    (block_data s) (usb_audio_transmit_buffer s),
                offset_1st := offset_1st s + ?n\<rparr>)" .
  then have "usb_audio_transmit_callback s = Some (?t\<lparr>usb_audio_transmit_buffer :=
                  copy_from_buffers_4ch ?n 0 l1 r1 l2 r2 (offset_1st s)
                    (block_data s) (usb_audio_transmit_buffer s),
                offset_1st := offset_1st s + ?n\<rparr>, ?n * 8)"
    by (simp add: usb_audio_transmit_callback_def case_prod_unfold Let_def)
  then show ?thesis by (subst (asm) t) simp
qed

lemma usb_audio_transmit_callback_underrun:
  "usb_audio_transmit_callback s = Some (s', n) \<Longrightarrow>
   usb_audio_underrun_count s' = usb_audio_underrun_count s"
proof -
  assume a: "usb_audio_transmit_callback s = Some (s', n)"
  then have "tx_loop (fst (tx_target s)) 0 (snd (tx_target s)) = Some s'"
    by (auto simp: usb_audio_transmit_callback_def case_prod_unfold Let_def split: option.splits)
  from tx_loop_underrun [OF this] show ?thesis by (simp add: tx_target_def)
qed

lemma usb_audio_transmit_callback_empty:
  assumes "left_1st s = None"
  shows "usb_audio_transmit_callback s
           = Some (s\<lparr>tx_count := tx_count (snd (tx_target s)),
                     usb_audio_transmit_buffer :=
                       memset_words_at 0 (2 * fst (tx_target s)) (usb_audio_transmit_buffer s)\<rparr>,
                   fst (tx_target s) * 8)"
proof -
  let ?t = "snd (tx_target s)"
  let ?n = "fst (tx_target s)"
  have t: "?t = s\<lparr>tx_count := tx_count ?t\<rparr>" by (rule tx_target_state)
  have pos: "0 < ?n" using tx_target_cases [of s] by auto
  have h: "left_1st ?t = None" "usb_audio_transmit_buffer ?t = usb_audio_transmit_buffer s"
    using assms by (simp_all add: tx_target_def)
  have "tx_loop ?n 0 ?t = Some (?t\<lparr>usb_audio_transmit_buffer :=
          memset_words_at 0 (2 * ?n) (usb_audio_transmit_buffer s)\<rparr>)"
    using tx_loop_empty [OF h(1) pos] h(2) by simp
  then have "usb_audio_transmit_callback s = Some (?t\<lparr>usb_audio_transmit_buffer :=
          memset_words_at 0 (2 * ?n) (usb_audio_transmit_buffer s)\<rparr>, ?n * 8)"
    by (simp add: usb_audio_transmit_callback_def case_prod_unfold Let_def)
  then show ?thesis by (subst (asm) t) simp
qed

lemma tx_queued_fields:
  "left_1st tx_queued = Some 11" "right_1st tx_queued = Some 12"
  "left2_1st tx_queued = Some 13" "right2_1st tx_queued = Some 14"
  "left_2nd tx_queued = None" "right_2nd tx_queued = None"
  "left2_2nd tx_queued = None" "right2_2nd tx_queued = None"
  "offset_1st tx_queued = 0" "tx_count tx_queued = 5" "pool_free tx_queued = []"
  by (simp_all add: tx_queued_def AudioOutputUSB_update_def AudioOutputUSB_begin_def usb0_def
        tx_silence_def tx_enqueue_def)

lemma tx_queued_reachable: "tx_reachable tx_queued"
  unfolding tx_queued_def by (rule tx_reachable_update [OF tx_reachable_begin])

lemma tx_after_one:
  "usb_audio_transmit_callback tx_queued
     = Some (tx_queued\<lparr>tx_count := 6,
               usb_audio_transmit_buffer :=
                 copy_from_buffers_4ch 44 0 11 12 13 14 0
                   (block_data tx_queued) (usb_audio_transmit_buffer tx_queued),
               offset_1st := 44\<rparr>, 352)"
proof -
  have t: "fst (tx_target tx_queued) = 44" "tx_count (snd (tx_target tx_queued)) = 6"
    by (simp_all add: tx_target_def tx_queued_fields)
  have o: "offset_1st tx_queued + fst (tx_target tx_queued) < AUDIO_BLOCK_SAMPLES"
    unfolding t by (simp add: tx_queued_fields AUDIO_BLOCK_SAMPLES_def)
  show ?thesis
    using usb_audio_transmit_callback_partial [OF tx_queued_fields(1-4) o]
    unfolding t by (simp add: tx_queued_fields)
qed

lemma tx_after_two_eq:
  "usb_audio_transmit_callback
       (tx_queued\<lparr>tx_count := 6,
               usb_audio_transmit_buffer :=
                 copy_from_buffers_4ch 44 0 11 12 13 14 0
                   (block_data tx_queued) (usb_audio_transmit_buffer tx_queued),
               offset_1st := 44\<rparr>)
     = Some (tx_after_two, 352)"
  "left_1st tx_after_two = Some 11" "right_1st tx_after_two = Some 12"
  "left2_1st tx_after_two = Some 13" "right2_1st tx_after_two = Some 14"
  "left_2nd tx_after_two = None" "right_2nd tx_after_two = None"
  "left2_2nd tx_after_two = None" "right2_2nd tx_after_two = None"
  "offset_1st tx_after_two = 88" "tx_count tx_after_two = 7" "pool_free tx_after_two = []"
proof -
  let ?s1 = "tx_queued\<lparr>tx_count := 6,
               usb_audio_transmit_buffer :=
                 copy_from_buffers_4ch 44 0 11 12 13 14 0
                   (block_data tx_queued) (usb_audio_transmit_buffer tx_queued),
               offset_1st := 44\<rparr>"
  have t: "fst (tx_target ?s1) = 44" "tx_count (snd (tx_target ?s1)) = 7"
    by (simp_all add: tx_target_def)
  have cb: "usb_audio_transmit_callback ?s1
     = Some (?s1\<lparr>tx_count := 7,
               usb_audio_transmit_buffer :=
                 copy_from_buffers_4ch 44 0 11 12 13 14 44
                   (block_data ?s1) (usb_audio_transmit_buffer ?s1),
               offset_1st := 88\<rparr>, 352)"
  proof -
    have f: "left_1st ?s1 = Some 11" "right_1st ?s1 = Some 12" "left2_1st ?s1 = Some 13"
      "right2_1st ?s1 = Some 14"
      by (simp_all add: tx_queued_fields)
    have o: "offset_1st ?s1 + fst (tx_target ?s1) < AUDIO_BLOCK_SAMPLES"
      unfolding t by (simp add: AUDIO_BLOCK_SAMPLES_def)
    show ?thesis
      using usb_audio_transmit_callback_partial [OF f o] unfolding t by simp
  qed
  have two: "tx_after_two = ?s1\<lparr>tx_count := 7,
               usb_audio_transmit_buffer :=
                 copy_from_buffers_4ch 44 0 11 12 13 14 44
                   (block_data ?s1) (usb_audio_transmit_buffer ?s1),
               offset_1st := 88\<rparr>"
    by (simp add: tx_after_two_def tx_after_one cb)
  show "usb_audio_transmit_callback ?s1 = Some (tx_after_two, 352)"
    by (simp add: cb two)
  show "left_1st tx_after_two = Some 11" "right_1st tx_after_two = Some 12"
    "left2_1st tx_after_two = Some 13" "right2_1st tx_after_two = Some 14"
    "left_2nd tx_after_two = None" "right_2nd tx_after_two = None"
    "left2_2nd tx_after_two = None" "right2_2nd tx_after_two = None"
    "offset_1st tx_after_two = 88" "tx_count tx_after_two = 7" "pool_free tx_after_two = []"
    by (simp_all add: two tx_queued_fields)
qed

lemma tx_after_two_reachable: "tx_reachable tx_after_two"
  by (rule tx_reachable_callback [OF tx_reachable_callback [OF tx_queued_reachable tx_after_one]
        tx_after_two_eq(1)])

lemma copy_from_buffers_4ch_apply:
  "copy_from_buffers_4ch n dst l1 r1 l2 r2 off d buf j
     = (if dst \<le> j \<and> j < dst + 2 * n
        then (if even (j - dst)
              then push_bit 16 (scast (d r1 (off + (j - dst) div 2)))
                   OR (scast (d l1 (off + (j - dst) div 2)) AND 0xFFFF)
              else push_bit 16 (scast (d r2 (off + (j - dst) div 2)))
                   OR (scast (d l2 (off + (j - dst) div 2)) AND 0xFFFF))
        else buf j)"
proof (induction n)
  case 0
  then show ?case by auto
next
  case (Suc n)
  consider "j = dst + 2 * n" | "j = dst + 2 * n + 1" | "j \<noteq> dst + 2 * n" "j \<noteq> dst + 2 * n + 1"
    by blast
  then show ?case
  proof cases
    case 1
    then show ?thesis by (simp add: Let_def)
  next
    case 2
    then show ?thesis by (simp add: Let_def)
  next
    case 3
    then have "(dst \<le> j \<and> j < dst + 2 * Suc n) = (dst \<le> j \<and> j < dst + 2 * n)"
      by auto
    then show ?thesis using 3 Suc.IH by (simp add: Let_def)
  qed
qed

lemma tx_queued_data:
  "block_data tx_queued = (\<lambda>b k. 1)" "usb_audio_transmit_buffer tx_queued = (\<lambda>j. 0)"
  by (simp_all add: tx_queued_def AudioOutputUSB_update_def AudioOutputUSB_begin_def usb0_def
        tx_silence_def tx_enqueue_def)

lemma tx_after_two_data:
  "block_data tx_after_two = (\<lambda>b k. 1)"
  "usb_audio_transmit_buffer tx_after_two 80 = 0x00010001"
proof -
  let ?s1 = "tx_queued\<lparr>tx_count := 6,
               usb_audio_transmit_buffer :=
                 copy_from_buffers_4ch 44 0 11 12 13 14 0
                   (block_data tx_queued) (usb_audio_transmit_buffer tx_queued),
               offset_1st := 44\<rparr>"
  have t: "fst (tx_target ?s1) = 44" "tx_count (snd (tx_target ?s1)) = 7"
    by (simp_all add: tx_target_def)
  have f: "left_1st ?s1 = Some 11" "right_1st ?s1 = Some 12" "left2_1st ?s1 = Some 13"
    "right2_1st ?s1 = Some 14"
    by (simp_all add: tx_queued_fields)
  have o: "offset_1st ?s1 + fst (tx_target ?s1) < AUDIO_BLOCK_SAMPLES"
    unfolding t by (simp add: AUDIO_BLOCK_SAMPLES_def)
  have two: "tx_after_two = ?s1\<lparr>tx_count := 7,
               usb_audio_transmit_buffer :=
                 copy_from_buffers_4ch 44 0 11 12 13 14 44
                   (block_data ?s1) (usb_audio_transmit_buffer ?s1),
               offset_1st := 88\<rparr>"
    using usb_audio_transmit_callback_partial [OF f o] tx_after_two_eq(1) unfolding t by simp
  show "block_data tx_after_two = (\<lambda>b k. 1)"
    by (simp add: two tx_queued_data)
  show "usb_audio_transmit_buffer tx_after_two 80 = 0x00010001"
    by (simp add: two tx_queued_data copy_from_buffers_4ch_apply)
qed

lemma tx_third_call:
  "usb_audio_transmit_callback tx_after_two
     = Some (tx_after_two\<lparr>tx_count := 8,
               usb_audio_transmit_buffer :=
                 memset_words_at 40 8
                   (copy_from_buffers_4ch 40 0 11 12 13 14 88 (block_data tx_after_two)
                      (usb_audio_transmit_buffer tx_after_two)),
               pool_free := [14, 13, 12, 11],
               left_1st := None, right_1st := None, left2_1st := None, right2_1st := None,
               offset_1st := 0\<rparr>, 352)"
proof -
  let ?t = "tx_after_two\<lparr>tx_count := 8\<rparr>"
  have t: "tx_target tx_after_two = (44, ?t)"
    by (simp add: tx_target_def tx_after_two_eq)
  have f: "left_1st ?t = Some 11" "right_1st ?t = Some 12" "left2_1st ?t = Some 13"
    "right2_1st ?t = Some 14" "offset_1st ?t < AUDIO_BLOCK_SAMPLES"
    "AUDIO_BLOCK_SAMPLES \<le> offset_1st ?t + (44 - 0)"
    by (simp_all add: tx_after_two_eq AUDIO_BLOCK_SAMPLES_def)
  have lt: "(0::nat) < 44" by simp
  note c = tx_consume_whole [OF f(5) f(6), of 11 12 13 14]
  have e: "left_1st (snd (tx_consume 44 0 11 12 13 14 ?t)) = None"
    "fst (tx_consume 44 0 11 12 13 14 ?t) = 40"
    by (simp_all add: c tx_after_two_eq AUDIO_BLOCK_SAMPLES_def)
  have lt2: "fst (tx_consume 44 0 11 12 13 14 ?t) < 44" unfolding e by simp
  have "tx_loop 44 0 ?t
          = Some ((snd (tx_consume 44 0 11 12 13 14 ?t))
              \<lparr>usb_audio_transmit_buffer :=
                 memset_words_at 40 8
                   (usb_audio_transmit_buffer (snd (tx_consume 44 0 11 12 13 14 ?t)))\<rparr>)"
    using tx_loop_step [OF f(1-4) lt] tx_loop_empty [OF e(1) lt2] by (simp add: e)
  then show ?thesis
    by (simp add: usb_audio_transmit_callback_def t c tx_after_two_eq
          AUDIO_BLOCK_SAMPLES_def release_def)
qed

text \<open>
  When the queue runs empty in the middle of a packet, the zero-fill does not cover the
  rest of the packet. From \<open>tx_after_two\<close> (head entry at offset 88, no second entry)
  the third callback copies the last 40 samples of the entry into the words 0 to 79,
  releases the entry, and finds the queue empty with \<open>len = 40\<close>: the \<open>memset\<close> then
  clears the words 40 to 47, which hold copied samples, and leaves the words 80 to 87,
  the rest of the packet, as the previous packet wrote them.
\<close>

lemma tx_underrun_midpacket_region:
  "left_1st (fst (the (usb_audio_transmit_callback tx_after_two))) = None
   \<and> usb_audio_transmit_buffer (fst (the (usb_audio_transmit_callback tx_after_two))) 39
       = 0x00010001
   \<and> usb_audio_transmit_buffer (fst (the (usb_audio_transmit_callback tx_after_two))) 40 = 0
   \<and> usb_audio_transmit_buffer (fst (the (usb_audio_transmit_callback tx_after_two))) 80
       = 0x00010001"
  by (simp add: tx_third_call memset_words_at_apply copy_from_buffers_4ch_apply
        tx_after_two_data)

subsection \<open>The claims about the USB transmit path\<close>

text \<open>
  C3 (transmit underrun), as the claim states it, fails: the transmit callback never
  counts an underrun. After \<open>begin\<close> the queue is empty; the callback runs, returns, and
  \<open>usb_audio_underrun_count\<close> is what it was (0, not 1).
\<close>

theorem tx_underrun_counterexample:
  "left_1st (AudioOutputUSB_begin (usb0 [])) = None
   \<and> usb_audio_transmit_callback (AudioOutputUSB_begin (usb0 [])) \<noteq> None
   \<and> usb_audio_underrun_count (AudioOutputUSB_begin (usb0 [])) = 0
   \<and> usb_audio_underrun_count
       (fst (the (usb_audio_transmit_callback (AudioOutputUSB_begin (usb0 []))))) = 0
   \<and> usb_audio_underrun_count
       (fst (the (usb_audio_transmit_callback (AudioOutputUSB_begin (usb0 [])))))
       \<noteq> usb_audio_underrun_count (AudioOutputUSB_begin (usb0 [])) + 1"
proof -
  have e: "left_1st (AudioOutputUSB_begin (usb0 [])) = None"
    by (simp add: AudioOutputUSB_begin_def)
  show ?thesis
    by (simp add: usb_audio_transmit_callback_empty [OF e])
       (simp add: AudioOutputUSB_begin_def usb0_def)
qed

text \<open>
  C3, amended. An invocation of \<open>usb_audio_transmit_callback\<close> that finds the queue
  empty at its entry (\<open>left_1st\<close> null) returns the packet length \<open>target * 8\<close> with
  every word of the packet's \<open>target\<close> samples (two 32-bit words, that is four channels,
  per sample) set to zero, and leaves \<open>usb_audio_underrun_count\<close> unchanged. No
  invocation of the transmit callback changes \<open>usb_audio_underrun_count\<close>.
\<close>

theorem tx_underrun_zero_fill:
  assumes "left_1st s = None" and "j < 2 * fst (tx_target s)"
  shows "usb_audio_transmit_callback s \<noteq> None
       \<and> snd (the (usb_audio_transmit_callback s)) = fst (tx_target s) * 8
       \<and> usb_audio_transmit_buffer (fst (the (usb_audio_transmit_callback s))) j = 0
       \<and> usb_audio_underrun_count (fst (the (usb_audio_transmit_callback s)))
           = usb_audio_underrun_count s
       \<and> (\<forall>t t' n. usb_audio_transmit_callback t = Some (t', n)
             \<longrightarrow> usb_audio_underrun_count t' = usb_audio_underrun_count t)"
  using assms(2)
  by (simp add: usb_audio_transmit_callback_empty [OF assms(1)] memset_words_at_apply
        usb_audio_transmit_callback_underrun)

theorem tx_underrun_zero_fill_witness:
  "left_1st (AudioOutputUSB_begin (usb0 [])) = None
   \<and> (87::nat) < 2 * fst (tx_target (AudioOutputUSB_begin (usb0 [])))
   \<and> usb_audio_transmit_callback (AudioOutputUSB_begin (usb0 [])) \<noteq> None
   \<and> snd (the (usb_audio_transmit_callback (AudioOutputUSB_begin (usb0 [])))) = 352
   \<and> usb_audio_transmit_buffer
       (fst (the (usb_audio_transmit_callback (AudioOutputUSB_begin (usb0 []))))) 87 = 0"
proof -
  have e: "left_1st (AudioOutputUSB_begin (usb0 [])) = None"
    by (simp add: AudioOutputUSB_begin_def)
  have t: "fst (tx_target (AudioOutputUSB_begin (usb0 []))) = 44"
    by (simp add: tx_target_def AudioOutputUSB_begin_def usb0_def)
  have j: "(87::nat) < 2 * fst (tx_target (AudioOutputUSB_begin (usb0 [])))"
    by (simp add: t)
  show ?thesis
    using e j tx_underrun_zero_fill [OF e j] by (simp add: t)
qed

text \<open>
  C9 (head-offset invariant). In every state reachable through \<open>begin\<close>, \<open>update\<close> and
  the transmit callback, \<open>offset_1st\<close> is below \<open>AUDIO_BLOCK_SAMPLES\<close>. When a pass of the
  callback's loop uses up the head entry (the samples still wanted reach the end of
  the block), its four blocks are released, each pointer of the second entry moves
  into the first entry, the second entry is null, and \<open>offset_1st\<close> is 0.
\<close>

theorem tx_offset_invariant:
  assumes "tx_reachable s"
  shows "offset_1st s < AUDIO_BLOCK_SAMPLES
       \<and> (\<forall>target len l1 r1 l2 r2.
            left_1st s = Some l1 \<and> right_1st s = Some r1
            \<and> left2_1st s = Some l2 \<and> right2_1st s = Some r2
            \<and> len < target \<and> AUDIO_BLOCK_SAMPLES \<le> offset_1st s + (target - len)
          \<longrightarrow> tx_loop target len s
                = tx_loop target (fst (tx_consume target len l1 r1 l2 r2 s))
                    (snd (tx_consume target len l1 r1 l2 r2 s))
            \<and> fst (tx_consume target len l1 r1 l2 r2 s)
                = len + (AUDIO_BLOCK_SAMPLES - offset_1st s)
            \<and> pool_free (snd (tx_consume target len l1 r1 l2 r2 s))
                = r2 # l2 # r1 # l1 # pool_free s
            \<and> left_1st (snd (tx_consume target len l1 r1 l2 r2 s)) = left_2nd s
            \<and> right_1st (snd (tx_consume target len l1 r1 l2 r2 s)) = right_2nd s
            \<and> left2_1st (snd (tx_consume target len l1 r1 l2 r2 s)) = left2_2nd s
            \<and> right2_1st (snd (tx_consume target len l1 r1 l2 r2 s)) = right2_2nd s
            \<and> left_2nd (snd (tx_consume target len l1 r1 l2 r2 s)) = None
            \<and> right_2nd (snd (tx_consume target len l1 r1 l2 r2 s)) = None
            \<and> left2_2nd (snd (tx_consume target len l1 r1 l2 r2 s)) = None
            \<and> right2_2nd (snd (tx_consume target len l1 r1 l2 r2 s)) = None
            \<and> offset_1st (snd (tx_consume target len l1 r1 l2 r2 s)) = 0)"
proof -
  have o: "offset_1st s < AUDIO_BLOCK_SAMPLES"
    using tx_reachable_inv [OF assms] by (simp add: tx_inv_def)
  show ?thesis
    using o by (auto simp: tx_consume_whole [OF o] tx_loop_step release_def)
qed

theorem tx_offset_invariant_witness:
  "tx_reachable tx_after_two
   \<and> left_1st tx_after_two = Some 11 \<and> right_1st tx_after_two = Some 12
   \<and> left2_1st tx_after_two = Some 13 \<and> right2_1st tx_after_two = Some 14
   \<and> (0::nat) < 44 \<and> AUDIO_BLOCK_SAMPLES \<le> offset_1st tx_after_two + (44 - 0)
   \<and> offset_1st tx_after_two < AUDIO_BLOCK_SAMPLES
   \<and> fst (tx_consume 44 0 11 12 13 14 tx_after_two) = 40
   \<and> pool_free (snd (tx_consume 44 0 11 12 13 14 tx_after_two)) = [14, 13, 12, 11]
   \<and> left_1st (snd (tx_consume 44 0 11 12 13 14 tx_after_two)) = None
   \<and> left_2nd (snd (tx_consume 44 0 11 12 13 14 tx_after_two)) = None
   \<and> offset_1st (snd (tx_consume 44 0 11 12 13 14 tx_after_two)) = 0"
proof -
  have h: "left_1st tx_after_two = Some 11 \<and> right_1st tx_after_two = Some 12
      \<and> left2_1st tx_after_two = Some 13 \<and> right2_1st tx_after_two = Some 14
      \<and> (0::nat) < 44 \<and> AUDIO_BLOCK_SAMPLES \<le> offset_1st tx_after_two + (44 - 0)"
    by (simp add: tx_after_two_eq AUDIO_BLOCK_SAMPLES_def)
  from tx_offset_invariant [OF tx_after_two_reachable]
  have o: "offset_1st tx_after_two < AUDIO_BLOCK_SAMPLES"
    and c: "left_1st tx_after_two = Some 11 \<and> right_1st tx_after_two = Some 12
      \<and> left2_1st tx_after_two = Some 13 \<and> right2_1st tx_after_two = Some 14
      \<and> (0::nat) < 44 \<and> AUDIO_BLOCK_SAMPLES \<le> offset_1st tx_after_two + (44 - 0)
      \<longrightarrow> fst (tx_consume 44 0 11 12 13 14 tx_after_two)
                = 0 + (AUDIO_BLOCK_SAMPLES - offset_1st tx_after_two)
        \<and> pool_free (snd (tx_consume 44 0 11 12 13 14 tx_after_two))
                = 14 # 13 # 12 # 11 # pool_free tx_after_two
        \<and> left_1st (snd (tx_consume 44 0 11 12 13 14 tx_after_two)) = left_2nd tx_after_two
        \<and> left_2nd (snd (tx_consume 44 0 11 12 13 14 tx_after_two)) = None
        \<and> offset_1st (snd (tx_consume 44 0 11 12 13 14 tx_after_two)) = 0"
    by blast+
  from c h have "fst (tx_consume 44 0 11 12 13 14 tx_after_two)
                = 0 + (AUDIO_BLOCK_SAMPLES - offset_1st tx_after_two)
        \<and> pool_free (snd (tx_consume 44 0 11 12 13 14 tx_after_two))
                = 14 # 13 # 12 # 11 # pool_free tx_after_two
        \<and> left_1st (snd (tx_consume 44 0 11 12 13 14 tx_after_two)) = left_2nd tx_after_two
        \<and> left_2nd (snd (tx_consume 44 0 11 12 13 14 tx_after_two)) = None
        \<and> offset_1st (snd (tx_consume 44 0 11 12 13 14 tx_after_two)) = 0"
    by blast
  then show ?thesis
    using h o tx_after_two_reachable by (simp add: tx_after_two_eq AUDIO_BLOCK_SAMPLES_def)
qed

text \<open>
  C10 (group consistency of the queue). In every state reachable through \<open>begin\<close>,
  \<open>update\<close> and the transmit callback, in each of the two queue entries the pointers
  \<open>right\<close>, \<open>left2\<close> and \<open>right2\<close> are null exactly when \<open>left\<close> is null, and the
  transmit callback returns without dereferencing a null pointer.
\<close>

theorem tx_queue_group_consistency:
  assumes "tx_reachable s"
  shows "(right_1st s = None) = (left_1st s = None)
       \<and> (left2_1st s = None) = (left_1st s = None)
       \<and> (right2_1st s = None) = (left_1st s = None)
       \<and> (right_2nd s = None) = (left_2nd s = None)
       \<and> (left2_2nd s = None) = (left_2nd s = None)
       \<and> (right2_2nd s = None) = (left_2nd s = None)
       \<and> usb_audio_transmit_callback s \<noteq> None"
proof -
  have i: "tx_inv s" by (rule tx_reachable_inv [OF assms])
  obtain s' where "usb_audio_transmit_callback s = Some (s', fst (tx_target s) * 8)"
    using usb_audio_transmit_callback_inv [OF i] by blast
  then show ?thesis using i by (simp add: tx_inv_def)
qed

theorem tx_queue_group_consistency_witness:
  "tx_reachable tx_queued
   \<and> (right_1st tx_queued = None) = (left_1st tx_queued = None)
   \<and> (left2_1st tx_queued = None) = (left_1st tx_queued = None)
   \<and> (right2_1st tx_queued = None) = (left_1st tx_queued = None)
   \<and> (right_2nd tx_queued = None) = (left_2nd tx_queued = None)
   \<and> (left2_2nd tx_queued = None) = (left_2nd tx_queued = None)
   \<and> (right2_2nd tx_queued = None) = (left_2nd tx_queued = None)
   \<and> usb_audio_transmit_callback tx_queued \<noteq> None"
  using tx_queued_reachable tx_queue_group_consistency [OF tx_queued_reachable] by simp


end
